theory Spec2Isabelle
  imports Main "HOL-Library.Word" "HOL-Library.Signed_Division"
begin

unbundle bit_operations_syntax

section \<open>Go strings\<close>

text \<open>
  A Go string is a sequence of bytes; \<^typ>\<open>string\<close> (a list of 8-bit \<^typ>\<open>char\<close>) is
  the same thing, and \<^const>\<open>length\<close> is Go's \<^verbatim>\<open>len\<close>.  The three bytes the escaping
  is about are written by code: backslash is \<^term>\<open>CHR 0x5C\<close>, newline is
  \<^term>\<open>CHR 0x0A\<close>, the double quote is \<^term>\<open>CHR 0x22\<close>.
\<close>

text \<open>\<^verbatim>\<open>strings.HasPrefix(s, prefix)\<close>.\<close>

definition HasPrefix :: "string \<Rightarrow> string \<Rightarrow> bool" where
  "HasPrefix s pre = (length pre \<le> length s \<and> take (length pre) s = pre)"

text \<open>
  \<^verbatim>\<open>strings.Replace(s, old, new, -1)\<close> for a non-empty \<^verbatim>\<open>old\<close>: the non-overlapping
  occurrences of \<^verbatim>\<open>old\<close> are replaced from left to right, and the scan continues after
  the occurrence, never inside the text just written.  (With an empty \<^verbatim>\<open>old\<close> Go
  inserts \<^verbatim>\<open>new\<close> around every rune; no pattern of the program is empty and that
  behaviour is not modelled: the equation returns \<open>s\<close> there.)
\<close>

function Replace :: "string \<Rightarrow> string \<Rightarrow> string \<Rightarrow> string" where
  "Replace s old new =
     (if old = [] \<or> s = [] then s
      else if HasPrefix s old then new @ Replace (drop (length old) s) old new
      else hd s # Replace (tl s) old new)"
  by pat_completeness auto
termination
  by (relation "measure (\<lambda>(s, old, new). length s)") auto

declare Replace.simps [simp del]

section \<open>Escaping of a payload (\<^verbatim>\<open>PATTERNS\<close>, \<^verbatim>\<open>patternReplace\<close>)\<close>

text \<open>
  The table \<^verbatim>\<open>PATTERNS\<close> of the ingest client, which \<^verbatim>\<open>connection.push\<close> repeats
  inline: backslash, newline, double quote, in this order.
\<close>

definition PATTERNS :: "(string \<times> string) list" where
  "PATTERNS = [([CHR 0x5C], [CHR 0x5C, CHR 0x5C]),
               ([CHR 0x0A], [CHR 0x5C, CHR ''n'']),
               ([CHR 0x22], [CHR 0x5C, CHR 0x22])]"

text \<open>\<^verbatim>\<open>for _, v := range PATTERNS { text = strings.Replace(text, v.Pattern, v.Replacement, -1) }\<close>\<close>

definition patternReplace :: "string \<Rightarrow> string" where
  "patternReplace text = foldl (\<lambda>t v. Replace t (fst v) (snd v)) text PATTERNS"

text \<open>
  The specification's side of the escaping.  \<open>escapeByte\<close> is the substitution applied
  to one byte, once.  \<open>wellEscaped\<close> reads a text from the left as a sequence of escape
  pairs (a backslash followed by a backslash, an \<open>n\<close> or a double quote) and of bytes
  that need no escape: it holds when no backslash, newline or double quote stands
  outside such a pair.  \<open>unescape\<close> is the reverse substitution, one scan from the
  left, each pair giving back its byte.
\<close>

definition escapeByte :: "char \<Rightarrow> string" where
  "escapeByte c =
     (if c = CHR 0x5C then [CHR 0x5C, CHR 0x5C]
      else if c = CHR 0x0A then [CHR 0x5C, CHR ''n'']
      else if c = CHR 0x22 then [CHR 0x5C, CHR 0x22]
      else [c])"

fun wellEscaped :: "string \<Rightarrow> bool" where
  "wellEscaped [] = True"
| "wellEscaped [c] = (c \<noteq> CHR 0x5C \<and> c \<noteq> CHR 0x0A \<and> c \<noteq> CHR 0x22)"
| "wellEscaped (c # d # ds) =
     (if c = CHR 0x5C then (d = CHR 0x5C \<or> d = CHR ''n'' \<or> d = CHR 0x22) \<and> wellEscaped ds
      else c \<noteq> CHR 0x0A \<and> c \<noteq> CHR 0x22 \<and> wellEscaped (d # ds))"

fun unescape :: "string \<Rightarrow> string" where
  "unescape [] = []"
| "unescape [c] = [c]"
| "unescape (c # d # ds) =
     (if c = CHR 0x5C \<and> d = CHR 0x5C then CHR 0x5C # unescape ds
      else if c = CHR 0x5C \<and> d = CHR ''n'' then CHR 0x0A # unescape ds
      else if c = CHR 0x5C \<and> d = CHR 0x22 then CHR 0x22 # unescape ds
      else c # unescape (d # ds))"

subsection \<open>The three passes are one substitution per byte\<close>

lemma Replace_Nil: "Replace [] old new = []"
  by (simp add: Replace.simps)

lemma Replace_Cons1:
  "Replace (x # xs) [c] new = (if x = c then new else [x]) @ Replace xs [c] new"
  by (subst Replace.simps) (simp add: HasPrefix_def)

lemma Replace_single: "Replace s [c] new = concat (map (\<lambda>x. if x = c then new else [x]) s)"
  by (induction s) (simp_all add: Replace_Nil Replace_Cons1)

lemma patternReplace_escapeByte: "patternReplace t = concat (map escapeByte t)"
  unfolding patternReplace_def PATTERNS_def
  by (induction t) (simp_all add: Replace_single escapeByte_def)

lemma wellEscaped_escapeByte: "wellEscaped s \<Longrightarrow> wellEscaped (escapeByte c @ s)"
  by (cases s) (auto simp: escapeByte_def)

lemma wellEscaped_concat: "wellEscaped (concat (map escapeByte t))"
  by (induction t) (simp_all add: wellEscaped_escapeByte)

lemma unescape_escapeByte: "wellEscaped s \<Longrightarrow> unescape (escapeByte c @ s) = c # unescape s"
  by (cases s) (auto simp: escapeByte_def)

lemma unescape_concat: "unescape (concat (map escapeByte t)) = t"
  by (induction t) (simp_all add: unescape_escapeByte wellEscaped_concat)

lemma no_newline_concat: "CHR 0x0A \<notin> set (concat (map escapeByte t))"
  by (auto simp: escapeByte_def split: if_splits)

text \<open>
  Claim C3.  For every payload \<open>t\<close>, the three sequential passes of \<open>patternReplace\<close>
  give exactly the text in which every byte of \<open>t\<close> is substituted once (so no pass
  escapes again what an earlier pass has written); the result has no backslash,
  newline or double quote outside an escape pair, and holds no newline byte at all;
  and the reverse substitution, scanning the escaped text once from the left, gives
  back \<open>t\<close>.
\<close>

theorem patternReplace_roundtrip:
  "patternReplace t = concat (map escapeByte t)
   \<and> wellEscaped (patternReplace t)
   \<and> CHR 0x0A \<notin> set (patternReplace t)
   \<and> unescape (patternReplace t) = t"
  unfolding patternReplace_escapeByte
  using wellEscaped_concat [of t] unescape_concat [of t] no_newline_concat [of t]
  by (intro conjI) (rule refl, assumption+)

section \<open>Errors, panics and results\<close>

text \<open>
  A Go function of this program ends in one of four ways: it returns a value, it
  returns a non-nil \<^verbatim>\<open>error\<close>, it panics (an index or slice bound out of range, a nil
  pointer), or it blocks on a channel operation that nothing completes.
\<close>

datatype panic = IndexOutOfRange | SliceBoundsOutOfRange | NilPointerDereference

datatype error =
    ErrClosed | ErrPoolTimeout | BadConnError | ContextDone
  | EOF | TransportError string | ServerError string
  | StartedParseError string | NumError string | DialError string

datatype 'a result = Ok 'a | Err error | Panic panic | Blocked

text \<open>The slice expression \<^verbatim>\<open>xs[n:]\<close>: a run-time panic when \<open>n\<close> exceeds the length.\<close>

definition sliceFrom :: "'a list \<Rightarrow> nat \<Rightarrow> 'a list result" where
  "sliceFrom xs n = (if n \<le> length xs then Ok (drop n xs) else Panic SliceBoundsOutOfRange)"

section \<open>Library functions of \<^verbatim>\<open>strings\<close>, \<^verbatim>\<open>strconv\<close>, \<^verbatim>\<open>unicode\<close>\<close>

definition byte :: "char \<Rightarrow> nat" where
  "byte c = of_char c"

text \<open>
  \<^verbatim>\<open>strings.Split(s, sep)\<close> for a non-empty separator: the text between the
  non-overlapping occurrences of \<open>sep\<close>, found from the left; \<open>n\<close> occurrences give
  \<open>n + 1\<close> fields, empty ones included.  (An empty separator explodes the string into
  runes in Go; the program never passes one and the equation returns \<open>[s]\<close> there.)
\<close>

function Split :: "string \<Rightarrow> string \<Rightarrow> string list" where
  "Split s sep =
     (if sep = [] then [s]
      else if s = [] then [[]]
      else if HasPrefix s sep then [] # Split (drop (length sep) s) sep
      else (let fs = Split (tl s) sep in (hd s # hd fs) # tl fs))"
  by pat_completeness auto
termination
  by (relation "measure (\<lambda>(s, sep). length s)") auto

declare Split.simps [simp del]

text \<open>\<^verbatim>\<open>strings.Join(elems, sep)\<close>.\<close>

fun Join :: "string list \<Rightarrow> string \<Rightarrow> string" where
  "Join [] sep = []"
| "Join [e] sep = e"
| "Join (e # es) sep = e @ sep @ Join es sep"

text \<open>
  \<^verbatim>\<open>strconv.Atoi\<close>: an optional sign, then at least one decimal digit and nothing else,
  and a value that fits the 64-bit \<^verbatim>\<open>int\<close>.  Go reports a syntax or a range error in a
  \<^verbatim>\<open>*NumError\<close>; the model keeps the one constructor \<open>NumError\<close> for both.
\<close>

definition isDigit :: "char \<Rightarrow> bool" where
  "isDigit c = (48 \<le> byte c \<and> byte c \<le> 57)"

definition digitsValue :: "string \<Rightarrow> int" where
  "digitsValue ds = foldl (\<lambda>n ch. n * 10 + (int (byte ch) - 48)) 0 ds"

definition Atoi :: "string \<Rightarrow> int result" where
  "Atoi s =
     (if s = [] then Err (NumError s)
      else let neg = (hd s = CHR ''-'');
               ds = (if hd s = CHR ''-'' \<or> hd s = CHR ''+'' then tl s else s)
           in if ds = [] \<or> \<not> list_all isDigit ds then Err (NumError s)
              else let n = (if neg then - digitsValue ds else digitsValue ds)
                   in if n < - (2 ^ 63) \<or> 2 ^ 63 - 1 < n then Err (NumError s) else Ok n)"

text \<open>
  \<^verbatim>\<open>utf8.DecodeRuneInString\<close>: the first rune of \<open>s\<close> and its width in bytes.  An
  invalid or truncated encoding gives \<open>(RuneError, 1)\<close>, the empty string
  \<open>(RuneError, 0)\<close>.  The library looks the lead byte up in its table \<^verbatim>\<open>first\<close>, which
  gives the width of the encoding (\<open>leadSize\<close>; 0 stands for the entry \<^verbatim>\<open>xx\<close> of an
  invalid lead byte) and the range accepted for the second byte (\<open>acceptLo\<close>,
  \<open>acceptHi\<close>); the further bytes are continuation bytes \<^verbatim>\<open>0x80..0xBF\<close>.  Masks and
  shifts are written as \<open>mod\<close> and multiplication.
\<close>

definition RuneError :: nat where
  "RuneError = 0xFFFD"

definition isCont :: "nat \<Rightarrow> bool" where
  "isCont b = (0x80 \<le> b \<and> b \<le> 0xBF)"

definition leadSize :: "nat \<Rightarrow> nat" where
  "leadSize s0 =
     (if s0 < 0x80 then 1 else if s0 < 0xC2 then 0 else if s0 < 0xE0 then 2
      else if s0 < 0xF0 then 3 else if s0 \<le> 0xF4 then 4 else 0)"

definition acceptLo :: "nat \<Rightarrow> nat" where
  "acceptLo s0 = (if s0 = 0xE0 then 0xA0 else if s0 = 0xF0 then 0x90 else 0x80)"

definition acceptHi :: "nat \<Rightarrow> nat" where
  "acceptHi s0 = (if s0 = 0xED then 0x9F else if s0 = 0xF4 then 0x8F else 0xBF)"

definition DecodeRuneInString :: "string \<Rightarrow> nat \<times> nat" where
  "DecodeRuneInString s =
     (let n = length s in
      if n < 1 then (RuneError, 0)
      else let s0 = byte (s ! 0); sz = leadSize s0 in
        if sz = 1 then (s0, 1)
        else if sz = 0 then (RuneError, 1)
        else if n < sz then (RuneError, 1)
        else let s1 = byte (s ! 1) in
          if s1 < acceptLo s0 \<or> acceptHi s0 < s1 then (RuneError, 1)
          else if sz \<le> 2 then ((s0 mod 32) * 64 + s1 mod 64, 2)
          else let s2 = byte (s ! 2) in
            if \<not> isCont s2 then (RuneError, 1)
            else if sz \<le> 3 then ((s0 mod 16) * 4096 + (s1 mod 64) * 64 + s2 mod 64, 3)
            else let s3 = byte (s ! 3) in
              if \<not> isCont s3 then (RuneError, 1)
              else ((s0 mod 8) * 262144 + (s1 mod 64) * 4096 + (s2 mod 64) * 64
                    + s3 mod 64, 4))"

text \<open>\<^verbatim>\<open>unicode.IsSpace\<close>: the Latin-1 spaces, and beyond them the category White_Space.\<close>

definition IsSpace :: "nat \<Rightarrow> bool" where
  "IsSpace r =
     (if r \<le> 0xFF then (9 \<le> r \<and> r \<le> 13) \<or> r = 0x20 \<or> r = 0x85 \<or> r = 0xA0
      else r = 0x1680 \<or> (0x2000 \<le> r \<and> r \<le> 0x200A) \<or> r = 0x2028 \<or> r = 0x2029
           \<or> r = 0x202F \<or> r = 0x205F \<or> r = 0x3000)"

text \<open>
  \<^verbatim>\<open>strings.FieldsFunc(s, f)\<close>: the loop \<^verbatim>\<open>for end, rune := range s\<close> decodes one rune
  after the other; \<open>cur\<close> is the field being read (\<^verbatim>\<open>start >= 0\<close>), closed by the next
  rune that satisfies \<open>f\<close> or by the end of the string.
\<close>

lemma leadSize_le: "leadSize s0 \<le> 4"
  by (simp add: leadSize_def)

lemma DecodeRuneInString_width: "s \<noteq> [] \<Longrightarrow> 0 < snd (DecodeRuneInString s)"
  using leadSize_le [of "byte (s ! 0)"] by (auto simp add: DecodeRuneInString_def Let_def)

function fieldsLoop :: "(nat \<Rightarrow> bool) \<Rightarrow> string \<Rightarrow> string option \<Rightarrow> string list" where
  "fieldsLoop f s cur =
     (if s = [] then (case cur of None \<Rightarrow> [] | Some fld \<Rightarrow> [fld])
      else let r = fst (DecodeRuneInString s); w = snd (DecodeRuneInString s) in
        if f r then (case cur of None \<Rightarrow> fieldsLoop f (drop w s) None
                              | Some fld \<Rightarrow> fld # fieldsLoop f (drop w s) None)
        else fieldsLoop f (drop w s)
               (Some ((case cur of None \<Rightarrow> [] | Some fld \<Rightarrow> fld) @ take w s)))"
  by pat_completeness auto
termination
  by (relation "measure (\<lambda>(f, s, cur). length s)")
     (simp_all add: DecodeRuneInString_width)

declare fieldsLoop.simps [simp del]

definition FieldsFunc :: "string \<Rightarrow> (nat \<Rightarrow> bool) \<Rightarrow> string list" where
  "FieldsFunc s f = fieldsLoop f s None"

section \<open>The event line of a query (\<^verbatim>\<open>getSearchResults\<close>)\<close>

definition getSearchResults :: "string \<Rightarrow> string \<Rightarrow> string list result" where
  "getSearchResults line eventType =
     (if HasPrefix line (''EVENT '' @ eventType) then sliceFrom (Split line '' '') 3
      else Ok [])"

subsection \<open>Splitting and joining on single spaces\<close>

lemma Split_Nil: "sep \<noteq> [] \<Longrightarrow> Split [] sep = [[]]"
  by (simp add: Split.simps)

lemma Split_space_Cons:
  "Split (c # cs) '' '' =
     (if c = CHR '' '' then [] # Split cs '' ''
      else (c # hd (Split cs '' '')) # tl (Split cs '' ''))"
  by (subst Split.simps) (simp add: HasPrefix_def Let_def)

lemma Split_nonempty: "Split s '' '' \<noteq> []"
  by (induction s) (simp_all add: Split_Nil Split_space_Cons)

lemma Split_field: "CHR '' '' \<notin> set f \<Longrightarrow> Split (f @ CHR '' '' # rest) '' '' = f # Split rest '' ''"
  by (induction f) (auto simp add: Split_space_Cons)

lemma Split_last: "CHR '' '' \<notin> set f \<Longrightarrow> Split f '' '' = [f]"
  by (induction f) (auto simp add: Split_Nil Split_space_Cons)

lemma Split_Join:
  "fs \<noteq> [] \<Longrightarrow> \<forall>f\<in>set fs. CHR '' '' \<notin> set f \<Longrightarrow> Split (Join fs '' '') '' '' = fs"
proof (induction fs "'' ''" rule: Join.induct)
  case 1
  then show ?case by simp
next
  case (2 e)
  then show ?case by (simp add: Split_last)
next
  case (3 e v va)
  then show ?case by (simp add: Split_field)
qed

lemma Join_Cons_hd: "Join ((c # f) # fs) sep = c # Join (f # fs) sep"
  by (cases fs) simp_all

lemma Join_Split: "Join (Split s '' '') '' '' = s"
proof (induction s)
  case Nil
  show ?case by (simp add: Split_Nil)
next
  case (Cons c cs)
  obtain f fs where sp: "Split cs '' '' = f # fs"
    using Split_nonempty [of cs] by (cases "Split cs '' ''") auto
  from Cons have ih: "Join (f # fs) '' '' = cs"
    by (simp only: sp)
  show ?case
  proof (cases "c = CHR '' ''")
    case True
    then show ?thesis
      by (simp add: Split_space_Cons sp ih)
  next
    case False
    then show ?thesis
      by (simp add: Split_space_Cons sp Join_Cons_hd ih del: Join.simps)
  qed
qed

lemma Split_no_space: "f \<in> set (Split s '' '') \<Longrightarrow> CHR '' '' \<notin> set f"
proof (induction s arbitrary: f)
  case Nil
  then show ?case by (simp add: Split_Nil)
next
  case (Cons c cs)
  obtain g gs where sp: "Split cs '' '' = g # gs"
    using Split_nonempty [of cs] by (cases "Split cs '' ''") auto
  have ih: "\<And>h. h \<in> set (g # gs) \<Longrightarrow> CHR '' '' \<notin> set h"
    using Cons.IH unfolding sp by blast
  show ?case
  proof (cases "c = CHR '' ''")
    case True
    with Cons.prems have "f = [] \<or> f \<in> set (g # gs)"
      by (simp add: Split_space_Cons sp)
    with ih show ?thesis by auto
  next
    case False
    with Cons.prems have "f = c # g \<or> f \<in> set gs"
      by (simp add: Split_space_Cons sp)
    with ih False show ?thesis by auto
  qed
qed

text \<open>
  Claim C7, as the code has it.  A line that does not begin with \<open>EVENT\<close>, a space and
  the expected kind gives the empty list and no error.  A line that begins so and has
  at least three space-separated fields gives the fields after the third: the line is
  written as its fields \<open>fs\<close> (none holding a space) joined by single spaces, which
  every line is (\<open>Join_Split\<close>, \<open>Split_no_space\<close>).
\<close>

theorem getSearchResults_event:
  "(\<not> HasPrefix line (''EVENT '' @ kind) \<longrightarrow> getSearchResults line kind = Ok [])
   \<and> ((\<forall>f\<in>set fs. CHR '' '' \<notin> set f) \<and> 3 \<le> length fs
        \<and> HasPrefix (Join fs '' '') (''EVENT '' @ kind)
      \<longrightarrow> getSearchResults (Join fs '' '') kind = Ok (drop 3 fs))"
proof (intro conjI impI)
  assume "\<not> HasPrefix line (''EVENT '' @ kind)"
  then show "getSearchResults line kind = Ok []"
    by (simp add: getSearchResults_def)
next
  assume a: "(\<forall>f\<in>set fs. CHR '' '' \<notin> set f) \<and> 3 \<le> length fs
        \<and> HasPrefix (Join fs '' '') (''EVENT '' @ kind)"
  then have "fs \<noteq> []" by auto
  with a have "Split (Join fs '' '') '' '' = fs"
    by (simp add: Split_Join)
  with a show "getSearchResults (Join fs '' '') kind = Ok (drop 3 fs)"
    by (simp add: getSearchResults_def sliceFrom_def)
qed

text \<open>The two scenarios of the specification, from the theorem.\<close>

theorem getSearchResults_event_witness:
  "getSearchResults ''EVENT SUGGEST xyz w1 w2'' ''QUERY'' = Ok []
   \<and> getSearchResults ''EVENT QUERY abc123 id1 id2 id3'' ''QUERY'' = Ok [''id1'', ''id2'', ''id3'']"
  using getSearchResults_event [of "''EVENT SUGGEST xyz w1 w2''" "''QUERY''"
      "[''EVENT'', ''QUERY'', ''abc123'', ''id1'', ''id2'', ''id3'']"]
  by (simp add: HasPrefix_def)

text \<open>
  A line that begins as expected and has fewer than three fields: \<^verbatim>\<open>[3:]\<close> is out of
  range and the call panics, it returns no list.
\<close>

theorem getSearchResults_short_line_counterexample:
  "HasPrefix ''EVENT QUERY'' (''EVENT '' @ ''QUERY'')
   \<and> getSearchResults ''EVENT QUERY'' ''QUERY'' = Panic SliceBoundsOutOfRange"
  by code_simp


section \<open>The connection (\<^verbatim>\<open>Conn\<close>)\<close>

text \<open>Early return on a non-nil error (or a panic), for a value and for a value with a state.\<close>

definition bindV :: "'a result \<Rightarrow> ('a \<Rightarrow> 'b result) \<Rightarrow> 'b result" where
  "bindV m k = (case m of Ok a \<Rightarrow> k a | Err e \<Rightarrow> Err e | Panic p \<Rightarrow> Panic p | Blocked \<Rightarrow> Blocked)"

definition andThen :: "'a result \<times> 's \<Rightarrow> ('a \<Rightarrow> 's \<Rightarrow> 'b result \<times> 's) \<Rightarrow> 'b result \<times> 's" where
  "andThen m k =
     (case m of (Ok a, s) \<Rightarrow> k a s | (Err e, s) \<Rightarrow> (Err e, s)
              | (Panic p, s) \<Rightarrow> (Panic p, s) | (Blocked, s) \<Rightarrow> (Blocked, s))"

text \<open>
  The network is the environment of the program.  A socket is given by what it will
  do: \<open>incoming\<close> lists the results of the coming calls of \<^verbatim>\<open>bufio.Reader.ReadLine\<close>
  (the line without its terminator, the \<^verbatim>\<open>isPrefix\<close> flag of a fragment, an error, and
  \<open>rl_unread\<close>, the number of bytes left in the reader's buffer after the call); when
  the list is used up the stream has ended and \<^verbatim>\<open>ReadLine\<close> returns \<^verbatim>\<open>io.EOF\<close>.
  \<open>outgoing\<close> lists the errors of the coming calls of \<^verbatim>\<open>Write\<close> (\<open>None\<close>: written);
  when it is used up every write succeeds.  \<open>sent\<close> records the bytes written.

  \<open>Conn\<close> has the fields of the Go struct; \<open>createdAt\<close> is in nanoseconds, \<open>usedAt\<close> in
  seconds (\<^verbatim>\<open>tm.Unix()\<close>).  A nil \<open>Reader\<close> or \<open>netConn\<close> is \<open>None\<close>.  The struct
  \<^verbatim>\<open>connection\<close> of \<^verbatim>\<open>connection.go\<close> has the fields \<^verbatim>\<open>reader\<close>, \<^verbatim>\<open>conn\<close>,
  \<^verbatim>\<open>cmdMaxBytes\<close>, \<^verbatim>\<open>closed\<close>: it is the same record with the fields \<open>Reader\<close>,
  \<open>netConn\<close>, \<open>cmdMaxBytes\<close>, \<open>closed\<close>.  Its \<^verbatim>\<open>write\<close> and \<^verbatim>\<open>close\<close> are those of
  \<open>Conn\<close> word for word; its \<^verbatim>\<open>read\<close> is not, and is \<open>connection_read\<close> below.
\<close>

record readline =
  rl_line :: string
  rl_isPrefix :: bool
  rl_err :: "error option"
  rl_unread :: nat

record bufReader =
  pending :: "readline list"
  unread :: nat

record netconn =
  wrerrs :: "error option list"
  sent :: string

record socket =
  incoming :: "readline list"
  outgoing :: "error option list"

record Conn =
  createdAt :: int
  usedAt :: int
  pooled :: bool
  Reader :: "bufReader option"
  netConn :: "netconn option"
  cmdMaxBytes :: int
  closed :: bool

definition Close :: "Conn \<Rightarrow> Conn" where
  "Close c = c\<lparr>netConn := None, closed := True, Reader := None\<rparr>"

definition Buffered :: "Conn \<Rightarrow> nat result" where
  "Buffered cn = (case Reader cn of None \<Rightarrow> Panic NilPointerDereference | Some rd \<Rightarrow> Ok (unread rd))"

fun readLoop :: "string \<Rightarrow> nat \<Rightarrow> readline list \<Rightarrow> string \<times> error option \<times> bufReader" where
  "readLoop buffer u [] = (buffer, Some EOF, \<lparr>pending = [], unread = u\<rparr>)"
| "readLoop buffer u (r # rs) =
     (case rl_err r of
        Some e \<Rightarrow> (buffer @ rl_line r, Some e, \<lparr>pending = rs, unread = rl_unread r\<rparr>)
      | None \<Rightarrow> if rl_isPrefix r then readLoop (buffer @ rl_line r) (rl_unread r) rs
                else (buffer @ rl_line r, None, \<lparr>pending = rs, unread = rl_unread r\<rparr>))"

definition read :: "Conn \<Rightarrow> string result \<times> Conn" where
  "read c =
     (if closed c then (Err ErrClosed, c)
      else case Reader c of
        None \<Rightarrow> (Panic NilPointerDereference, c)
      | Some rd \<Rightarrow>
          (case readLoop [] (unread rd) (pending rd) of
             (str, Some err, rd') \<Rightarrow>
               (Err err, if err = EOF then Close (c\<lparr>Reader := Some rd'\<rparr>) else c\<lparr>Reader := Some rd'\<rparr>)
           | (str, None, rd') \<Rightarrow>
               if HasPrefix str ''ERR '' then (Err (ServerError (drop 4 str)), c\<lparr>Reader := Some rd'\<rparr>)
               else (Ok str, c\<lparr>Reader := Some rd'\<rparr>)))"

definition conn_write :: "Conn \<Rightarrow> string \<Rightarrow> unit result \<times> Conn" where
  "conn_write c str =
     (if closed c then (Err ErrClosed, c)
      else case netConn c of
        None \<Rightarrow> (Panic NilPointerDereference, c)
      | Some nc \<Rightarrow>
          (case wrerrs nc of
             Some e # es \<Rightarrow> (Err e, c\<lparr>netConn := Some (nc\<lparr>wrerrs := es\<rparr>)\<rparr>)
           | None # es \<Rightarrow>
               (Ok (), c\<lparr>netConn := Some \<lparr>wrerrs = es, sent = sent nc @ str @ [CHR 0x0D, CHR 0x0A]\<rparr>\<rparr>)
           | [] \<Rightarrow>
               (Ok (), c\<lparr>netConn := Some \<lparr>wrerrs = [], sent = sent nc @ str @ [CHR 0x0D, CHR 0x0A]\<rparr>\<rparr>)))"

text \<open>The separator of the \<^verbatim>\<open>STARTED\<close> line: \<^verbatim>\<open>unicode.IsSpace(r) || r == '(' || r == ')'\<close>.\<close>

definition startedSep :: "nat \<Rightarrow> bool" where
  "startedSep r = (IsSpace r \<or> r = 0x28 \<or> r = 0x29)"

text \<open>
  \<^verbatim>\<open>connection.read\<close> of \<^verbatim>\<open>connection.go\<close>: \<^verbatim>\<open>Conn.read\<close> with one more branch, for a
  line that begins with \<^verbatim>\<open>STARTED\<close> and a space; the branch parses the last field and
  overwrites \<open>cmdMaxBytes\<close>, or returns the parse error.
\<close>

definition connection_read :: "Conn \<Rightarrow> string result \<times> Conn" where
  "connection_read c =
     (if closed c then (Err ErrClosed, c)
      else case Reader c of
        None \<Rightarrow> (Panic NilPointerDereference, c)
      | Some rd \<Rightarrow>
          (case readLoop [] (unread rd) (pending rd) of
             (str, Some err, rd') \<Rightarrow>
               (Err err, if err = EOF then Close (c\<lparr>Reader := Some rd'\<rparr>) else c\<lparr>Reader := Some rd'\<rparr>)
           | (str, None, rd') \<Rightarrow>
               if HasPrefix str ''ERR '' then (Err (ServerError (drop 4 str)), c\<lparr>Reader := Some rd'\<rparr>)
               else if HasPrefix str ''STARTED '' then
                 (let ss = FieldsFunc str startedSep in
                  if ss = [] then (Panic IndexOutOfRange, c\<lparr>Reader := Some rd'\<rparr>)
                  else case Atoi (last ss) of
                         Ok bufferSize \<Rightarrow>
                           (Ok str, c\<lparr>Reader := Some rd', cmdMaxBytes := bufferSize\<rparr>)
                       | Err _ \<Rightarrow> (Err (StartedParseError str), c\<lparr>Reader := Some rd'\<rparr>)
                       | Panic p \<Rightarrow> (Panic p, c\<lparr>Reader := Some rd'\<rparr>)
                       | Blocked \<Rightarrow> (Blocked, c\<lparr>Reader := Some rd'\<rparr>))
               else (Ok str, c\<lparr>Reader := Some rd'\<rparr>)))"

text \<open>
  \<^verbatim>\<open>NewConn\<close>.  The clock is read three times: \<open>tUsed\<close> for the field \<^verbatim>\<open>usedAt\<close> of the
  literal, \<open>tCreated\<close> for \<^verbatim>\<open>createdAt\<close>, and \<open>tSet\<close> for \<^verbatim>\<open>conn.setUsedAt(time.Now())\<close>,
  which overwrites the first.
\<close>

definition NewConn :: "socket \<Rightarrow> string \<Rightarrow> string \<Rightarrow> int \<Rightarrow> int \<Rightarrow> int \<Rightarrow> Conn result" where
  "NewConn sock ch password tUsed tCreated tSet =
     (let conn0 = \<lparr>createdAt = tCreated, usedAt = tUsed div 1000000000, pooled = False,
                   Reader = Some \<lparr>pending = incoming sock, unread = 0\<rparr>,
                   netConn = Some \<lparr>wrerrs = outgoing sock, sent = []\<rparr>,
                   cmdMaxBytes = 0, closed = False\<rparr>;
          conn = conn0\<lparr>usedAt := tSet div 1000000000\<rparr> in
      case conn_write conn (''START '' @ ch @ '' '' @ password) of
        (Err e, _) \<Rightarrow> Err e
      | (Panic p, _) \<Rightarrow> Panic p
      | (Blocked, _) \<Rightarrow> Blocked
      | (Ok _, conn1) \<Rightarrow>
          (case read conn1 of
             (Panic p, _) \<Rightarrow> Panic p
           | (Blocked, _) \<Rightarrow> Blocked
           | (_, conn2) \<Rightarrow>
               (case read conn2 of
                  (Err e, _) \<Rightarrow> Err e
                | (Panic p, _) \<Rightarrow> Panic p
                | (Blocked, _) \<Rightarrow> Blocked
                | (Ok line, conn3) \<Rightarrow>
                    (let ss = FieldsFunc line startedSep in
                     if ss = [] then Panic IndexOutOfRange
                     else case Atoi (last ss) of
                            Ok bufferSize \<Rightarrow> Ok (conn3\<lparr>cmdMaxBytes := bufferSize\<rparr>)
                          | Err _ \<Rightarrow> Err (StartedParseError line)
                          | Panic p \<Rightarrow> Panic p
                          | Blocked \<Rightarrow> Blocked))))"

definition buildCountQuery :: "string \<Rightarrow> string \<Rightarrow> string" where
  "buildCountQuery bucket object =
     (if bucket \<noteq> [] then bucket @ (if object \<noteq> [] then '' '' @ object else []) else [])"

text \<open>
  \<^verbatim>\<open>Conn.Count\<close> of the pooled connection, which reads with \<^verbatim>\<open>Conn.read\<close>, and
  \<^verbatim>\<open>connection.Count\<close> of \<^verbatim>\<open>connection.go\<close>, which reads with \<^verbatim>\<open>connection.read\<close>.
\<close>

definition Count :: "Conn \<Rightarrow> string \<Rightarrow> string \<Rightarrow> string \<Rightarrow> int result \<times> Conn" where
  "Count c collection bucket object =
     andThen (conn_write c (''COUNT '' @ collection @ '' '' @ buildCountQuery bucket object)) (\<lambda>_ c1.
     andThen (read c1) (\<lambda>r c2.
       (bindV (sliceFrom r 7) Atoi, c2)))"

definition connection_Count :: "Conn \<Rightarrow> string \<Rightarrow> string \<Rightarrow> string \<Rightarrow> int result \<times> Conn" where
  "connection_Count c collection bucket object =
     andThen (conn_write c (''COUNT '' @ collection @ '' '' @ buildCountQuery bucket object)) (\<lambda>_ c1.
     andThen (connection_read c1) (\<lambda>r c2.
       (bindV (sliceFrom r 7) Atoi, c2)))"

definition ln :: "string \<Rightarrow> readline" where
  "ln s = \<lparr>rl_line = s, rl_isPrefix = False, rl_err = None, rl_unread = 0\<rparr>"


subsection \<open>One write and one read on an open connection\<close>

lemma Atoi_no_panic: "Atoi s \<noteq> Panic p" "Atoi s \<noteq> Blocked"
  by (simp_all add: Atoi_def Let_def)

lemma conn_write_ok:
  assumes "\<not> closed c" and "netConn c = Some nc" and "wrerrs nc = [] \<or> hd (wrerrs nc) = None"
  shows "conn_write c str =
     (Ok (), c\<lparr>netConn := Some \<lparr>wrerrs = tl (wrerrs nc),
                                  sent = sent nc @ str @ [CHR 0x0D, CHR 0x0A]\<rparr>\<rparr>)"
  using assms by (auto simp: conn_write_def split: list.splits option.splits)

lemma read_line:
  assumes "\<not> closed c" and "Reader c = Some rd" and "pending rd = r # rest"
    and "rl_err r = None" and "\<not> rl_isPrefix r"
  shows "read c =
     (if HasPrefix (rl_line r) ''ERR '' then Err (ServerError (drop 4 (rl_line r))) else Ok (rl_line r),
      c\<lparr>Reader := Some \<lparr>pending = rest, unread = rl_unread r\<rparr>\<rparr>)"
  using assms by (simp add: read_def)

subsection \<open>A line that begins with \<^verbatim>\<open>STARTED\<close> has a field\<close>

lemma fieldsLoop_open: "cur \<noteq> None \<Longrightarrow> fieldsLoop f s cur \<noteq> []"
proof (induction f s cur rule: fieldsLoop.induct)
  case (1 f s cur)
  then obtain fld where cur: "cur = Some fld" by auto
  show ?case
  proof (cases "s = []")
    case True
    with cur show ?thesis by (simp add: fieldsLoop.simps [of f "[]"])
  next
    case False
    show ?thesis
    proof (cases "f (fst (DecodeRuneInString s))")
      case True
      with False cur show ?thesis by (simp add: fieldsLoop.simps [of f s] Let_def)
    next
      case sep: False
      from "1.IH"(3) [OF False refl refl sep]
      have "fieldsLoop f (drop (snd (DecodeRuneInString s)) s)
              (Some (fld @ take (snd (DecodeRuneInString s)) s)) \<noteq> []"
        using cur by simp
      with False sep cur show ?thesis by (simp add: fieldsLoop.simps [of f s] Let_def)
    qed
  qed
qed

lemma FieldsFunc_started: "HasPrefix str ''STARTED '' \<Longrightarrow> FieldsFunc str startedSep \<noteq> []"
proof -
  assume h: "HasPrefix str ''STARTED ''"
  then obtain rest where s: "str = CHR ''S'' # rest"
    by (cases str) (auto simp add: HasPrefix_def)
  have d: "DecodeRuneInString str = (83, 1)"
    by (simp add: s DecodeRuneInString_def Let_def leadSize_def byte_def)
  have "\<not> startedSep 83" by (simp add: startedSep_def IsSpace_def)
  then have "FieldsFunc str startedSep = fieldsLoop startedSep (drop 1 str) (Some ([] @ take 1 str))"
    unfolding FieldsFunc_def using s d by (subst fieldsLoop.simps) (simp add: Let_def)
  then show ?thesis using fieldsLoop_open [of "Some ([] @ take 1 str)"] by simp
qed

lemma connection_read_line:
  assumes "\<not> closed c" and "Reader c = Some rd" and "pending rd = r # rest"
    and "rl_err r = None" and "\<not> rl_isPrefix r" and "\<not> HasPrefix (rl_line r) ''ERR ''"
  shows "fst (connection_read c) =
           (if HasPrefix (rl_line r) ''STARTED ''
               \<and> (\<forall>n. Atoi (last (FieldsFunc (rl_line r) startedSep)) \<noteq> Ok n)
            then Err (StartedParseError (rl_line r)) else Ok (rl_line r))"
proof (cases "HasPrefix (rl_line r) ''STARTED ''")
  case False
  with assms show ?thesis by (simp add: connection_read_def)
next
  case True
  from FieldsFunc_started [OF True] have ne: "FieldsFunc (rl_line r) startedSep \<noteq> []" .
  show ?thesis
    using assms True ne
    by (cases "Atoi (last (FieldsFunc (rl_line r) startedSep))")
       (simp_all add: connection_read_def Let_def Atoi_no_panic)
qed

lemma HasPrefix_started_length: "HasPrefix s ''STARTED '' \<Longrightarrow> 8 \<le> length s"
  by (simp add: HasPrefix_def)


text \<open>A connection after its handshake, with the lines the server will send.\<close>

definition openConn :: "string list \<Rightarrow> Conn" where
  "openConn lines =
     \<lparr>createdAt = 0, usedAt = 0, pooled = True,
      Reader = Some \<lparr>pending = map ln lines, unread = 0\<rparr>,
      netConn = Some \<lparr>wrerrs = [], sent = []\<rparr>,
      cmdMaxBytes = 20000, closed = False\<rparr>"

section \<open>The handshake (\<^verbatim>\<open>NewConn\<close>)\<close>


text \<open>The scenario of the specification: \<^verbatim>\<open>buffer(20000)\<close> gives 20000.\<close>

lemma FieldsFunc_started_example:
  "FieldsFunc ''STARTED search protocol(1) buffer(20000)'' startedSep =
     [''STARTED'', ''search'', ''protocol'', ''1'', ''buffer'', ''20000'']"
  by (simp add: FieldsFunc_def fieldsLoop.simps DecodeRuneInString_def Let_def leadSize_def
      startedSep_def IsSpace_def byte_def)

lemma Atoi_example: "Atoi ''20000'' = Ok 20000"
  by code_simp




section \<open>Chunking of a payload (\<^verbatim>\<open>splitText\<close>)\<close>

text \<open>
  \<^verbatim>\<open>utf8.RuneStart(b)\<close> is \<^verbatim>\<open>b&0xC0 != 0x80\<close>: the two top bits of the byte are not
  \<open>10\<close>, the byte is no continuation byte.
\<close>

definition RuneStart :: "char \<Rightarrow> bool" where
  "RuneStart b = (byte b div 64 \<noteq> 2)"

text \<open>
  The inner loop \<^verbatim>\<open>for !utf8.RuneStart(longString[r]) { r-- }\<close>.  Indexing outside
  \<open>0..len-1\<close> panics.
\<close>

function backToRuneStart :: "string \<Rightarrow> int \<Rightarrow> int result" where
  "backToRuneStart longString r =
     (if r < 0 \<or> int (length longString) \<le> r then Panic IndexOutOfRange
      else if RuneStart (longString ! nat r) then Ok r
      else backToRuneStart longString (r - 1))"
  by pat_completeness auto
termination
  by (relation "measure (\<lambda>(s, r). nat (r + 1))") auto

declare backToRuneStart.simps [simp del]

text \<open>The slice expression \<^verbatim>\<open>s[l:r]\<close>.\<close>

definition slice :: "string \<Rightarrow> int \<Rightarrow> int \<Rightarrow> string result" where
  "slice s l r =
     (if 0 \<le> l \<and> l \<le> r \<and> r \<le> int (length s) then Ok (take (nat (r - l)) (drop (nat l) s))
      else Panic SliceBoundsOutOfRange)"

text \<open>
  The outer loop \<^verbatim>\<open>for l, r = 0, maxLen; r < len(longString); l, r = r, r+maxLen\<close>
  with the final \<^verbatim>\<open>append(splits, longString[l:])\<close>.  The loop need not end: the
  function is partial, and \<open>None\<close> is the run that never returns.  Go's \<^verbatim>\<open>int\<close> has
  64 bits; \<open>r + maxLen\<close> stays far below \<open>2^63\<close> for a length and a \<open>maxLen\<close> that are
  each below \<open>2^62\<close>, which \<^verbatim>\<open>cmdMaxBytes/2\<close> and the length of a string in memory are,
  so the integers are unbounded here.
\<close>

partial_function (option) splitLoop ::
  "string \<Rightarrow> int \<Rightarrow> int \<Rightarrow> int \<Rightarrow> string list \<Rightarrow> string list result option" where
  "splitLoop longString maxLen l r splits =
     (if r < int (length longString) then
        (case backToRuneStart longString r of
           Ok r' \<Rightarrow>
             (case slice longString l r' of
                Ok chunk \<Rightarrow> splitLoop longString maxLen r' (r' + maxLen) (splits @ [chunk])
              | Err e \<Rightarrow> Some (Err e)
              | Panic p \<Rightarrow> Some (Panic p)
              | Blocked \<Rightarrow> Some Blocked)
         | Err e \<Rightarrow> Some (Err e)
         | Panic p \<Rightarrow> Some (Panic p)
         | Blocked \<Rightarrow> Some Blocked)
      else Some (bindV (slice longString l (int (length longString))) (\<lambda>chunk. Ok (splits @ [chunk]))))"

definition splitText :: "string \<Rightarrow> int \<Rightarrow> string list result option" where
  "splitText longString maxLen = splitLoop longString maxLen 0 maxLen []"


text \<open>
  \<^verbatim>\<open>utf8.ValidString\<close>: every rune decodes, none as an invalid byte (a lead byte
  below \<^verbatim>\<open>0x80\<close> or an encoding wider than one byte).
\<close>

function ValidString :: "string \<Rightarrow> bool" where
  "ValidString s =
     (if s = [] then True
      else (byte (s ! 0) < 0x80 \<or> 1 < snd (DecodeRuneInString s))
           \<and> ValidString (drop (snd (DecodeRuneInString s)) s))"
  by pat_completeness auto
termination
  by (relation "measure length") (simp_all add: DecodeRuneInString_width)

declare ValidString.simps [simp del]

text \<open>
  \<^verbatim>\<open>Conn.splitText\<close> is the same loop with \<^verbatim>\<open>c.cmdMaxBytes/2\<close> for \<open>maxLen\<close>; Go's
  division truncates towards zero (\<open>sdiv\<close>).  \<^verbatim>\<open>connection.push\<close> calls
  \<^verbatim>\<open>splitText(text, c.cmdMaxBytes/2)\<close>.
\<close>

definition Conn_splitText :: "Conn \<Rightarrow> string \<Rightarrow> string list result option" where
  "Conn_splitText c longString =
     splitLoop longString (cmdMaxBytes c sdiv 2) 0 (cmdMaxBytes c sdiv 2) []"

text \<open>
  What is claimed of the chunks, read from the left with the offset \<open>off\<close> of the
  chunk in \<open>s\<close>: the last chunk is the rest of \<open>s\<close> and is no longer than \<open>maxLen\<close>;
  every other chunk is the next bytes of \<open>s\<close>, at most \<open>maxLen\<close> of them, it ends
  where a rune starts, and no rune starts between its end and \<open>off + maxLen\<close> (the
  split point was moved back to the nearest rune start).
\<close>

fun chunksOk :: "string \<Rightarrow> int \<Rightarrow> nat \<Rightarrow> string list \<Rightarrow> bool" where
  "chunksOk s maxLen off [] = False"
| "chunksOk s maxLen off [c] = (c = drop off s \<and> int (length c) \<le> maxLen)"
| "chunksOk s maxLen off (c # d # cs) =
     (c = take (length c) (drop off s) \<and> int (length c) \<le> maxLen
      \<and> off + length c < length s \<and> RuneStart (s ! (off + length c))
      \<and> nat (int off + maxLen) < length s
      \<and> (\<forall>i\<in>{off + length c <.. nat (int off + maxLen)}. \<not> RuneStart (s ! i))
      \<and> chunksOk s maxLen (off + length c) (d # cs))"

text \<open>Two texts with the three bytes of the euro sign, and a connection with \<^verbatim>\<open>buffer(8)\<close>.\<close>

definition euroText :: string where
  "euroText = [CHR ''a'', CHR ''b'', CHR 0xE2, CHR 0x82, CHR 0xAC, CHR ''c'']"

definition aEuro :: string where
  "aEuro = [CHR ''a'', CHR 0xE2, CHR 0x82, CHR 0xAC]"

definition conn8 :: Conn where
  "conn8 = (openConn [])\<lparr>cmdMaxBytes := 8\<rparr>"

subsection \<open>The inner loop finds the nearest rune start\<close>

lemma backToRuneStart_Ok:
  "backToRuneStart s r = Ok r' \<Longrightarrow>
     0 \<le> r' \<and> r' \<le> r \<and> r < int (length s) \<and> RuneStart (s ! nat r')
     \<and> (\<forall>i. r' < i \<and> i \<le> r \<longrightarrow> \<not> RuneStart (s ! nat i))"
proof (induction s r rule: backToRuneStart.induct)
  case (1 s r)
  show ?case
  proof (cases "r < 0 \<or> int (length s) \<le> r")
    case True
    with 1 show ?thesis by (simp add: backToRuneStart.simps)
  next
    case range: False
    show ?thesis
    proof (cases "RuneStart (s ! nat r)")
      case True
      with range 1 show ?thesis by (auto simp add: backToRuneStart.simps [of s r])
    next
      case False
      with range "1.prems" have rec: "backToRuneStart s (r - 1) = Ok r'"
        by (simp add: backToRuneStart.simps [of s r])
      from "1.IH" [OF range False rec] have ih:
        "0 \<le> r'" "r' \<le> r - 1" "RuneStart (s ! nat r')"
        "\<forall>i. r' < i \<and> i \<le> r - 1 \<longrightarrow> \<not> RuneStart (s ! nat i)"
        by simp_all
      have "\<not> RuneStart (s ! nat i)" if "r' < i" "i \<le> r" for i
      proof (cases "i = r")
        case True
        with False show ?thesis by simp
      next
        case False
        with that ih(4) show ?thesis by simp
      qed
      with ih range show ?thesis by simp
    qed
  qed
qed

lemma backToRuneStart_nearest:
  assumes "0 \<le> p" and "p \<le> r" and "r < int (length s)" and "RuneStart (s ! nat p)"
    and "\<forall>i. p < i \<and> i \<le> r \<longrightarrow> \<not> RuneStart (s ! nat i)"
  shows "backToRuneStart s r = Ok p"
  using assms
proof (induction s r rule: backToRuneStart.induct)
  case (1 s r)
  show ?case
  proof (cases "r = p")
    case True
    with 1 show ?thesis by (simp add: backToRuneStart.simps [of s p])
  next
    case False
    with "1.prems" have lt: "p < r" by simp
    with "1.prems" have nr: "\<not> RuneStart (s ! nat r)" by simp
    have range: "\<not> (r < 0 \<or> int (length s) \<le> r)"
      using "1.prems" by simp
    have "backToRuneStart s (r - 1) = Ok p"
      using "1.IH" [OF range nr] "1.prems" lt by simp
    with range nr show ?thesis by (simp add: backToRuneStart.simps [of s r])
  qed
qed

lemma splitLoop_stuck:
  assumes "0 \<le> maxLen" and "0 \<le> l" and "l + maxLen < int (length s)"
    and "RuneStart (s ! nat l)"
    and "\<forall>i. l < i \<and> i \<le> l + maxLen \<longrightarrow> \<not> RuneStart (s ! nat i)"
  shows "splitLoop s maxLen l (l + maxLen) splits = None"
proof (rule ccontr)
  assume "splitLoop s maxLen l (l + maxLen) splits \<noteq> None"
  then obtain y where y: "splitLoop s maxLen l (l + maxLen) splits = Some y"
    by auto
  have bk: "backToRuneStart s (l + maxLen) = Ok l"
    using assms by (intro backToRuneStart_nearest) simp_all
  have sl: "slice s l l = Ok []"
    using assms by (simp add: slice_def)
  have "\<not> (s = s \<and> maxLen = maxLen \<and> l = l \<and> l + maxLen = l + maxLen)"
  proof (rule splitLoop.raw_induct [where P = "\<lambda>s' m' l' r' sp' y'.
            \<not> (s' = s \<and> m' = maxLen \<and> l' = l \<and> r' = l + maxLen)", OF _ y], goal_cases)
    case (1 f s' m' l' r' sp' y')
    show ?case
    proof
      assume st: "s' = s \<and> m' = maxLen \<and> l' = l \<and> r' = l + maxLen"
      with 1(2) assms(3) bk sl have "f s maxLen l (l + maxLen) (sp' @ [[]]) = Some y'"
        by simp
      from 1(1) [OF this] show False by simp
    qed
  qed
  then show False by simp
qed



subsection \<open>Valid UTF-8: a rune starts at most three bytes back\<close>

lemma div64: "((b::nat) div 64 = 2) = (128 \<le> b \<and> b \<le> 191)"
  by arith

lemma RuneStart_isCont: "RuneStart c = (\<not> isCont (byte c))"
  unfolding RuneStart_def isCont_def by (simp add: div64)

lemma leadSize_isCont: "isCont b \<Longrightarrow> leadSize b = 0"
  by (simp add: leadSize_def isCont_def)

lemma accept_isCont: "acceptLo b \<le> x \<Longrightarrow> x \<le> acceptHi b \<Longrightarrow> isCont x"
  by (simp add: acceptLo_def acceptHi_def isCont_def split: if_splits)

lemma Decode_width2:
  "snd (DecodeRuneInString s) = 2 \<Longrightarrow>
     2 \<le> length s \<and> \<not> isCont (byte (s ! 0)) \<and> isCont (byte (s ! 1))"
  using leadSize_isCont [of "byte (s ! 0)"]
    accept_isCont [of "byte (s ! 0)" "byte (s ! 1)"]
  by (auto simp add: DecodeRuneInString_def Let_def split: if_splits)

lemma Decode_width3:
  "snd (DecodeRuneInString s) = 3 \<Longrightarrow>
     3 \<le> length s \<and> \<not> isCont (byte (s ! 0))
     \<and> isCont (byte (s ! 1)) \<and> isCont (byte (s ! 2))"
  using leadSize_isCont [of "byte (s ! 0)"]
    accept_isCont [of "byte (s ! 0)" "byte (s ! 1)"]
  by (auto simp add: DecodeRuneInString_def Let_def split: if_splits)

lemma Decode_width4:
  "snd (DecodeRuneInString s) = 4 \<Longrightarrow>
     4 \<le> length s \<and> \<not> isCont (byte (s ! 0))
     \<and> isCont (byte (s ! 1)) \<and> isCont (byte (s ! 2)) \<and> isCont (byte (s ! 3))"
  using leadSize_isCont [of "byte (s ! 0)"] leadSize_le [of "byte (s ! 0)"]
    accept_isCont [of "byte (s ! 0)" "byte (s ! 1)"]
  by (auto simp add: DecodeRuneInString_def Let_def split: if_splits)

lemma Decode_width_cases:
  "s \<noteq> [] \<Longrightarrow> snd (DecodeRuneInString s) \<in> {1, 2, 3, 4}"
  by (simp add: DecodeRuneInString_def Let_def)
lemma Decode_valid_head:
  assumes "s \<noteq> []" and "byte (s ! 0) < 0x80 \<or> 1 < snd (DecodeRuneInString s)"
  shows "snd (DecodeRuneInString s) \<le> length s \<and> RuneStart (s ! 0)
         \<and> (\<forall>i. 0 < i \<and> i < snd (DecodeRuneInString s) \<longrightarrow> \<not> RuneStart (s ! i))"
proof -
  consider "snd (DecodeRuneInString s) = 1" | "snd (DecodeRuneInString s) = 2"
    | "snd (DecodeRuneInString s) = 3" | "snd (DecodeRuneInString s) = 4"
    using Decode_width_cases [OF assms(1)] by auto
  then show ?thesis
  proof cases
    case 1
    with assms show ?thesis
      by (cases s) (auto simp add: RuneStart_isCont isCont_def)
  next
    case 2
    note w = Decode_width2 [OF 2]
    have "\<not> RuneStart (s ! i)" if "0 < i" "i < 2" for i
    proof -
      from that have "i = 1" by arith
      with w show ?thesis by (simp add: RuneStart_isCont)
    qed
    with 2 w show ?thesis by (simp add: RuneStart_isCont)
  next
    case 3
    note w = Decode_width3 [OF 3]
    have "\<not> RuneStart (s ! i)" if "0 < i" "i < 3" for i
    proof -
      from that have "i = 1 \<or> i = 2" by arith
      with w show ?thesis by (auto simp add: RuneStart_isCont)
    qed
    with 3 w show ?thesis by (simp add: RuneStart_isCont)
  next
    case 4
    note w = Decode_width4 [OF 4]
    have "\<not> RuneStart (s ! i)" if "0 < i" "i < 4" for i
    proof -
      from that have "i = 1 \<or> i = 2 \<or> i = 3" by arith
      with w show ?thesis by (auto simp add: RuneStart_isCont)
    qed
    with 4 w show ?thesis by (simp add: RuneStart_isCont)
  qed
qed

lemma ValidString_Nil: "ValidString []"
  by (simp add: ValidString.simps)

lemma ValidString_step:
  "s \<noteq> [] \<Longrightarrow> ValidString s =
     ((byte (s ! 0) < 0x80 \<or> 1 < snd (DecodeRuneInString s))
      \<and> ValidString (drop (snd (DecodeRuneInString s)) s))"
  by (subst ValidString.simps) simp

lemma ValidString_near_start:
  "ValidString s \<Longrightarrow> i < length s \<Longrightarrow> \<exists>k\<le>3. k \<le> i \<and> RuneStart (s ! (i - k))"
proof (induction s arbitrary: i rule: ValidString.induct)
  case (1 s)
  from "1.prems" have ne: "s \<noteq> []" by auto
  let ?w = "snd (DecodeRuneInString s)"
  from "1.prems"(1) ne have hd: "byte (s ! 0) < 0x80 \<or> 1 < ?w" and tl: "ValidString (drop ?w s)"
    by (simp_all add: ValidString_step)
  note h = Decode_valid_head [OF ne hd]
  have w4: "?w \<le> 4" using Decode_width_cases [OF ne] by auto
  show ?case
  proof (cases "i < ?w")
    case True
    with w4 have "i \<le> 3" by simp
    moreover have "RuneStart (s ! (i - i))" using h by simp
    ultimately show ?thesis by blast
  next
    case False
    then have "i - ?w < length (drop ?w s)" using "1.prems"(2) by simp
    from "1.IH" [OF ne tl this] obtain k where k: "k \<le> 3" "k \<le> i - ?w"
      "RuneStart (drop ?w s ! (i - ?w - k))" by blast
    have "drop ?w s ! (i - ?w - k) = s ! (i - k)"
      using k(2) False h by simp
    with k show ?thesis
      by (intro exI [of _ k]) simp
  qed
qed
lemma backToRuneStart_exists:
  assumes "0 \<le> p" and "p \<le> r" and "r < int (length s)" and "RuneStart (s ! nat p)"
  shows "\<exists>r'. backToRuneStart s r = Ok r' \<and> p \<le> r'"
  using assms
proof (induction s r rule: backToRuneStart.induct)
  case (1 s r)
  have range: "\<not> (r < 0 \<or> int (length s) \<le> r)"
    using "1.prems" by simp
  show ?case
  proof (cases "RuneStart (s ! nat r)")
    case True
    with range "1.prems" show ?thesis by (simp add: backToRuneStart.simps [of s r])
  next
    case False
    with "1.prems" have "p \<noteq> r" by auto
    with "1.prems" have "p \<le> r - 1" by simp
    from "1.IH" [OF range False "1.prems"(1) this _ "1.prems"(4)] "1.prems"(3)
    obtain r' where "backToRuneStart s (r - 1) = Ok r'" "p \<le> r'" by auto
    with range False show ?thesis by (simp add: backToRuneStart.simps [of s r])
  qed
qed

lemma chunksOk_Cons:
  "cs \<noteq> [] \<Longrightarrow> chunksOk s maxLen off (c # cs) =
     (c = take (length c) (drop off s) \<and> int (length c) \<le> maxLen
      \<and> off + length c < length s \<and> RuneStart (s ! (off + length c))
      \<and> nat (int off + maxLen) < length s
      \<and> (\<forall>i\<in>{off + length c <.. nat (int off + maxLen)}. \<not> RuneStart (s ! i))
      \<and> chunksOk s maxLen (off + length c) cs)"
  by (cases cs) simp_all

lemma chunksOk_nonempty: "chunksOk s maxLen off cs \<Longrightarrow> cs \<noteq> []"
  by auto

lemma splitLoop_total:
  assumes near: "\<And>i. i < length s \<Longrightarrow> \<exists>k\<le>3. k \<le> i \<and> RuneStart (s ! (i - k))"
    and m: "4 \<le> maxLen"
  shows "l \<le> length s \<Longrightarrow>
     \<exists>chunks. splitLoop s maxLen (int l) (int l + maxLen) splits = Some (Ok (splits @ chunks))
        \<and> concat chunks = drop l s \<and> chunksOk s maxLen l chunks"
proof (induction "length s - l" arbitrary: l splits rule: less_induct)
  case less
  show ?case
  proof (cases "int l + maxLen < int (length s)")
    case False
    then have "splitLoop s maxLen (int l) (int l + maxLen) splits = Some (Ok (splits @ [drop l s]))"
      using less.prems by (subst splitLoop.simps) (simp add: slice_def bindV_def)
    moreover have "chunksOk s maxLen l [drop l s]"
      using False less.prems by simp
    ultimately show ?thesis by (intro exI [of _ "[drop l s]"]) simp
  next
    case True
    define r where "r = nat (int l + maxLen)"
    have r: "int r = int l + maxLen" "r < length s"
      using True m by (simp_all add: r_def)
    from near [OF r(2)] obtain k where k: "k \<le> 3" "k \<le> r" "RuneStart (s ! (r - k))"
      by blast
    have "\<exists>r'. backToRuneStart s (int r) = Ok r' \<and> int (r - k) \<le> r'"
    proof (rule backToRuneStart_exists)
      show "0 \<le> int (r - k)" by simp
      show "int (r - k) \<le> int r" by simp
      show "int r < int (length s)" using r(2) by simp
      show "RuneStart (s ! nat (int (r - k)))" using k(3) by (simp only: nat_int)
    qed
    then obtain r' where r': "backToRuneStart s (int r) = Ok r'" "int (r - k) \<le> r'"
      by blast
    note ok = backToRuneStart_Ok [OF r'(1)]
    define b where "b = nat r'"
    have b: "int b = r'" "b \<le> r" "l < b" "b < length s" "RuneStart (s ! b)"
      using ok r' k r m by (simp_all add: b_def) linarith+
    have nearest: "\<forall>i\<in>{b <.. r}. \<not> RuneStart (s ! i)"
    proof
      fix i assume "i \<in> {b <.. r}"
      then have "r' < int i \<and> int i \<le> int r" using b(1) by simp
      with ok have "\<not> RuneStart (s ! nat (int i))" by blast
      then show "\<not> RuneStart (s ! i)" by simp
    qed
    define chunk where "chunk = take (b - l) (drop l s)"
    have sl: "slice s (int l) r' = Ok chunk"
      using b by (simp add: slice_def chunk_def nat_diff_distrib' flip: b(1))
    have len: "length chunk = b - l"
      using b by (simp add: chunk_def)
    have "length s - b < length s - l"
      using b by simp
    from less.hyps [OF this, of "splits @ [chunk]"] b(4)
    obtain chunks where ih:
      "splitLoop s maxLen (int b) (int b + maxLen) (splits @ [chunk]) = Some (Ok ((splits @ [chunk]) @ chunks))"
      "concat chunks = drop b s" "chunksOk s maxLen b chunks"
      by auto
    have step: "splitLoop s maxLen (int l) (int l + maxLen) splits = Some (Ok (splits @ chunk # chunks))"
      using True r'(1) sl ih(1) r(1) b(1)
      by (subst splitLoop.simps) simp
    have cat: "concat (chunk # chunks) = drop l s"
    proof -
      have "take (b - l) (drop l s) @ drop b s = drop l s"
        using b(3) by (metis add_diff_inverse_nat append_take_drop_id drop_drop less_imp_le_nat not_less add.commute)
      then show ?thesis by (simp add: ih(2) chunk_def)
    qed
    have le: "int (length chunk) \<le> maxLen"
      using len b(2,3) r(1) by linarith
    have eq: "chunk = take (length chunk) (drop l s)"
      unfolding len by (simp add: chunk_def)
    have off: "l + length chunk = b"
      using len b(3) by simp
    have okc: "chunksOk s maxLen l (chunk # chunks)"
      unfolding chunksOk_Cons [OF chunksOk_nonempty [OF ih(3)]] off r_def [symmetric]
      using eq le b(4,5) r(2) nearest ih(3) by blast
    from step cat okc show ?thesis by blast
  qed
qed
lemma Decode_inv2:
  "snd (DecodeRuneInString s) = 2 \<Longrightarrow>
     leadSize (byte (s ! 0)) = 2 \<and> 2 \<le> length s
     \<and> acceptLo (byte (s ! 0)) \<le> byte (s ! 1) \<and> byte (s ! 1) \<le> acceptHi (byte (s ! 0))"
  by (auto simp add: DecodeRuneInString_def Let_def split: if_splits)

lemma Decode_inv3:
  "snd (DecodeRuneInString s) = 3 \<Longrightarrow>
     leadSize (byte (s ! 0)) = 3 \<and> 3 \<le> length s
     \<and> acceptLo (byte (s ! 0)) \<le> byte (s ! 1) \<and> byte (s ! 1) \<le> acceptHi (byte (s ! 0))
     \<and> isCont (byte (s ! 2))"
  by (auto simp add: DecodeRuneInString_def Let_def split: if_splits)

lemma Decode_inv4:
  "snd (DecodeRuneInString s) = 4 \<Longrightarrow>
     leadSize (byte (s ! 0)) = 4 \<and> 4 \<le> length s
     \<and> acceptLo (byte (s ! 0)) \<le> byte (s ! 1) \<and> byte (s ! 1) \<le> acceptHi (byte (s ! 0))
     \<and> isCont (byte (s ! 2)) \<and> isCont (byte (s ! 3))"
  using leadSize_le [of "byte (s ! 0)"]
  by (auto simp add: DecodeRuneInString_def Let_def split: if_splits)

lemma Decode_width_prefix:
  assumes "s \<noteq> []" and "byte (s ! 0) < 0x80 \<or> 1 < snd (DecodeRuneInString s)"
    and "\<forall>i. i < snd (DecodeRuneInString s) \<longrightarrow> s' ! i = s ! i"
    and "snd (DecodeRuneInString s) \<le> length s'"
  shows "snd (DecodeRuneInString s') = snd (DecodeRuneInString s)
         \<and> (byte (s' ! 0) < 0x80 \<or> 1 < snd (DecodeRuneInString s'))"
proof -
  consider "snd (DecodeRuneInString s) = 1" | "snd (DecodeRuneInString s) = 2"
    | "snd (DecodeRuneInString s) = 3" | "snd (DecodeRuneInString s) = 4"
    using Decode_width_cases [OF assms(1)] by auto
  then show ?thesis
  proof cases
    case 1
    with assms have "byte (s' ! 0) < 0x80" "1 \<le> length s'" by simp_all
    then have "snd (DecodeRuneInString s') = 1"
      by (auto simp add: DecodeRuneInString_def Let_def leadSize_def)
    with 1 \<open>byte (s' ! 0) < 0x80\<close> show ?thesis by simp
  next
    case 2
    from assms(3) 2 have e: "s' ! 0 = s ! 0" "s' ! Suc 0 = s ! Suc 0" by simp_all
    from assms(4) 2 have l: "2 \<le> length s'" by simp
    from Decode_inv2 [OF 2] l have "snd (DecodeRuneInString s') = 2"
      by (auto simp add: DecodeRuneInString_def Let_def e)
    with 2 show ?thesis by simp
  next
    case 3
    from assms(3) 3 have e: "s' ! 0 = s ! 0" "s' ! Suc 0 = s ! Suc 0" "s' ! 2 = s ! 2" by simp_all
    from assms(4) 3 have l: "3 \<le> length s'" by simp
    from Decode_inv3 [OF 3] l have "snd (DecodeRuneInString s') = 3"
      by (auto simp add: DecodeRuneInString_def Let_def e)
    with 3 show ?thesis by simp
  next
    case 4
    from assms(3) 4 have e: "s' ! 0 = s ! 0" "s' ! Suc 0 = s ! Suc 0" "s' ! 2 = s ! 2" "s' ! 3 = s ! 3"
      by simp_all
    from assms(4) 4 have l: "4 \<le> length s'" by simp
    from Decode_inv4 [OF 4] l have "snd (DecodeRuneInString s') = 4"
      by (auto simp add: DecodeRuneInString_def Let_def e)
    with 4 show ?thesis by simp
  qed
qed

lemma ValidString_cut:
  "ValidString s \<Longrightarrow> b \<le> length s \<Longrightarrow> (b < length s \<longrightarrow> RuneStart (s ! b)) \<Longrightarrow>
     ValidString (take b s) \<and> ValidString (drop b s)"
proof (induction s arbitrary: b rule: ValidString.induct)
  case (1 s)
  show ?case
  proof (cases "b = 0")
    case True
    with "1.prems" show ?thesis by (simp add: ValidString_Nil)
  next
    case False
    with "1.prems" have ne: "s \<noteq> []" by auto
    let ?w = "snd (DecodeRuneInString s)"
    from "1.prems"(1) ne have hd: "byte (s ! 0) < 0x80 \<or> 1 < ?w" and tl: "ValidString (drop ?w s)"
      by (simp_all add: ValidString_step)
    note h = Decode_valid_head [OF ne hd]
    have wb: "?w \<le> b"
    proof (rule ccontr)
      assume "\<not> ?w \<le> b"
      with False h "1.prems" show False by auto
    qed
    have pos: "0 < ?w" using DecodeRuneInString_width [OF ne] .
    have "ValidString (take (b - ?w) (drop ?w s)) \<and> ValidString (drop (b - ?w) (drop ?w s))"
    proof (rule "1.IH" [OF ne tl])
      show "b - ?w \<le> length (drop ?w s)" using "1.prems"(2) by simp
      show "b - ?w < length (drop ?w s) \<longrightarrow> RuneStart (drop ?w s ! (b - ?w))"
        using "1.prems" wb h by auto
    qed
    then have t: "ValidString (take (b - ?w) (drop ?w s))" and d: "ValidString (drop b s)"
      using wb by simp_all
    have tne: "take b s \<noteq> []" using False ne by simp
    have pre: "snd (DecodeRuneInString (take b s)) = ?w
         \<and> (byte (take b s ! 0) < 0x80 \<or> 1 < snd (DecodeRuneInString (take b s)))"
    proof (rule Decode_width_prefix [OF ne hd])
      show "\<forall>i. i < ?w \<longrightarrow> take b s ! i = s ! i" using wb by simp
      show "?w \<le> length (take b s)" using wb "1.prems"(2) by simp
    qed
    from pre have p1: "snd (DecodeRuneInString (take b s)) = ?w"
      and p2: "byte (take b s ! 0) < 0x80 \<or> 1 < snd (DecodeRuneInString (take b s))"
      by blast+
    have dr: "drop ?w (take b s) = take (b - ?w) (drop ?w s)"
      by (simp add: drop_take)
    have "ValidString (drop (snd (DecodeRuneInString (take b s))) (take b s))"
      unfolding p1 dr by (rule t)
    with p2 have "ValidString (take b s)"
      by (subst ValidString_step [OF tne]) blast
    with d show ?thesis by simp
  qed
qed
lemma chunksOk_valid:
  "chunksOk s maxLen off cs \<Longrightarrow> ValidString s \<Longrightarrow> off \<le> length s \<Longrightarrow>
     (off < length s \<longrightarrow> RuneStart (s ! off)) \<Longrightarrow> c \<in> set cs \<Longrightarrow> ValidString c"
proof (induction s maxLen off cs rule: chunksOk.induct)
  case (1 s maxLen off)
  then show ?case by simp
next
  case (2 s maxLen off c')
  then show ?case using ValidString_cut [of s off] by simp
next
  case (3 s maxLen off c' d cs)
  from "3.prems"(1) have c': "c' = take (length c') (drop off s)"
    and b: "off + length c' < length s" "RuneStart (s ! (off + length c'))"
    and rest: "chunksOk s maxLen (off + length c') (d # cs)"
    by simp_all
  have vd: "ValidString (drop off s)"
    using ValidString_cut [of s off] "3.prems" by simp
  have "ValidString (take (length c') (drop off s))"
    using ValidString_cut [OF vd, of "length c'"] b "3.prems"(3) by (simp add: add.commute)
  with c' have vc: "ValidString c'" by simp
  show ?case
  proof (cases "c = c'")
    case True
    with vc show ?thesis by simp
  next
    case False
    with "3.prems"(5) have "c \<in> set (d # cs)" by simp
    with "3.IH" [OF rest "3.prems"(2)] b show ?thesis by simp
  qed
qed

lemma chunksOk_last: "chunksOk s maxLen off cs \<Longrightarrow> int (length (last cs)) \<le> maxLen"
  by (induction s maxLen off cs rule: chunksOk.induct) simp_all

lemma splitLoop_straddle:
  assumes "0 \<le> maxLen" and "maxLen < w" and "0 \<le> l" and "l \<le> p" and "p < r" and "r < p + w"
    and "p + w \<le> int (length s)" and "RuneStart (s ! nat p)"
    and "\<forall>i. p < i \<and> i < p + w \<longrightarrow> \<not> RuneStart (s ! nat i)"
  shows "splitLoop s maxLen l r splits = None"
proof -
  have bk: "backToRuneStart s r = Ok p"
    using assms by (intro backToRuneStart_nearest) auto
  obtain chunk where sl: "slice s l p = Ok chunk"
    using assms by (simp add: slice_def)
  have "splitLoop s maxLen p (p + maxLen) (splits @ [chunk]) = None"
    using assms by (intro splitLoop_stuck) auto
  with bk sl assms(6,7) show ?thesis
    by (subst splitLoop.simps) simp
qed

subsection \<open>The chunks\<close>

lemma splitText_total:
  assumes "ValidString s" and "4 \<le> maxLen"
  shows "\<exists>chunks. splitText s maxLen = Some (Ok chunks) \<and> concat chunks = s
           \<and> chunksOk s maxLen 0 chunks"
proof -
  have "\<exists>chunks. splitLoop s maxLen (int 0) (int 0 + maxLen) [] = Some (Ok ([] @ chunks))
        \<and> concat chunks = drop 0 s \<and> chunksOk s maxLen 0 chunks"
    using ValidString_near_start [OF assms(1)] assms(2)
    by (intro splitLoop_total) simp_all
  then show ?thesis by (simp add: splitText_def)
qed

lemma ValidString_hd: "ValidString s \<Longrightarrow> s \<noteq> [] \<Longrightarrow> RuneStart (s ! 0)"
  using Decode_valid_head [of s] by (simp add: ValidString_step)

lemma splitText_zero:
  assumes "ValidString s" and "s \<noteq> []"
  shows "splitText s 0 = None"
proof -
  have "splitLoop s 0 0 (0 + 0) [] = None"
    using assms ValidString_hd [OF assms] by (intro splitLoop_stuck) simp_all
  then show ?thesis by (simp add: splitText_def)
qed

lemma half_zero: "k = - 1 \<or> k = 0 \<or> k = 1 \<Longrightarrow> (k::int) sdiv 2 = 0"
  by (auto simp add: signed_divide_int_def)

text \<open>
  Claim C4, for the payloads and targets on which the loop returns at all.  For a
  valid UTF-8 payload and a target of at least four bytes (the width of the longest
  rune), \<open>splitText\<close> returns chunks whose concatenation is the payload; every chunk
  boundary is the nearest rune start at or before the target (\<open>chunksOk\<close>), so that
  every chunk is valid UTF-8 itself; the last chunk is the rest and is no longer
  than the target.  \<open>Conn.splitText\<close> with \<^verbatim>\<open>cmdMaxBytes/2\<close> equal to the target
  returns the same chunks.
\<close>

theorem splitText_chunks:
  assumes "ValidString s" and "4 \<le> maxLen"
  shows "\<exists>chunks. splitText s maxLen = Some (Ok chunks)
           \<and> concat chunks = s
           \<and> chunksOk s maxLen 0 chunks
           \<and> (\<forall>c\<in>set chunks. ValidString c)
           \<and> int (length (last chunks)) \<le> maxLen
           \<and> (cmdMaxBytes cn sdiv 2 = maxLen \<longrightarrow> Conn_splitText cn s = Some (Ok chunks))"
proof -
  from splitText_total [OF assms] obtain chunks where c:
    "splitText s maxLen = Some (Ok chunks)" "concat chunks = s" "chunksOk s maxLen 0 chunks"
    by blast
  have "\<forall>c\<in>set chunks. ValidString c"
    using chunksOk_valid [OF c(3) assms(1)] ValidString_hd [OF assms(1)] by auto
  moreover have "int (length (last chunks)) \<le> maxLen"
    using c(3) by (rule chunksOk_last)
  moreover have "cmdMaxBytes cn sdiv 2 = maxLen \<longrightarrow> Conn_splitText cn s = Some (Ok chunks)"
    using c(1) by (auto simp add: Conn_splitText_def splitText_def)
  ultimately show ?thesis using c by blast
qed

lemma ValidString_euroText: "ValidString euroText"
  by (simp add: euroText_def ValidString.simps DecodeRuneInString_def Let_def leadSize_def
      acceptLo_def acceptHi_def isCont_def byte_def)

lemma splitText_euroText:
  "splitText euroText 4 = Some (Ok [''ab'', [CHR 0xE2, CHR 0x82, CHR 0xAC, CHR ''c'']])"
  by (simp add: euroText_def splitText_def splitLoop.simps backToRuneStart.simps slice_def
      RuneStart_def byte_def bindV_def)

text \<open>The bytes \<open>ab\<close>, euro sign, \<open>c\<close> with target 4: the split point 4 is moved back to 2.\<close>

theorem splitText_chunks_witness:
  "ValidString euroText \<and> (4::int) \<le> 4
   \<and> splitText euroText 4 = Some (Ok [''ab'', [CHR 0xE2, CHR 0x82, CHR 0xAC, CHR ''c'']])
   \<and> (\<exists>chunks. splitText euroText 4 = Some (Ok chunks) \<and> concat chunks = euroText
         \<and> chunksOk euroText 4 0 chunks \<and> (\<forall>c\<in>set chunks. ValidString c)
         \<and> int (length (last chunks)) \<le> 4
         \<and> Conn_splitText conn8 euroText = Some (Ok chunks))"
proof -
  have h: "cmdMaxBytes conn8 sdiv 2 = 4"
    by (simp add: conn8_def openConn_def signed_divide_int_def)
  from splitText_chunks [OF ValidString_euroText order_refl, of conn8]
  obtain chunks where c: "splitText euroText 4 = Some (Ok chunks)" "concat chunks = euroText"
    "chunksOk euroText 4 0 chunks" "\<forall>c\<in>set chunks. ValidString c"
    "int (length (last chunks)) \<le> 4"
    "cmdMaxBytes conn8 sdiv 2 = 4 \<longrightarrow> Conn_splitText conn8 euroText = Some (Ok chunks)"
    by blast
  from c(6) h have "Conn_splitText conn8 euroText = Some (Ok chunks)"
    by blast
  with c ValidString_euroText splitText_euroText show ?thesis
    by blast
qed

text \<open>
  For \<open>cmdMaxBytes = 1\<close> the target is 0 and the call on the payload \<open>a\<close> never returns:
  no chunks are produced for this payload and this \<open>maxCommandBytes\<close>.
\<close>

theorem splitText_zero_target_counterexample:
  "splitText ''a'' (1 sdiv 2) = None"
proof -
  have "ValidString ''a''"
    by (simp add: ValidString.simps DecodeRuneInString_def Let_def leadSize_def byte_def)
  then show ?thesis using splitText_zero [of "''a''"] by (simp add: signed_divide_int_def)
qed

text \<open>
  Claim C9, as the code has it.  (1) On a valid UTF-8 payload with a target of at
  least 4 the call returns.  (2) With target 0 the call on a non-empty valid payload
  never returns, and the callers pass target 0 when \<open>cmdMaxBytes\<close> is \<open>-1\<close>, \<open>0\<close> (unset)
  or \<open>1\<close>.  (3) When the loop stands at a chunk start \<open>l\<close> with split point \<open>r\<close>
  strictly inside a character that starts at \<open>p \<ge> l\<close> and is \<open>w\<close> bytes wide, and the
  target is smaller than \<open>w\<close>, the call never returns.
\<close>

theorem splitText_termination:
  "(ValidString s \<and> 4 \<le> maxLen \<longrightarrow> (\<exists>chunks. splitText s maxLen = Some (Ok chunks)))
   \<and> (ValidString s \<and> s \<noteq> [] \<longrightarrow> splitText s 0 = None)
   \<and> (ValidString s \<and> s \<noteq> [] \<and> (cmdMaxBytes cn = - 1 \<or> cmdMaxBytes cn = 0 \<or> cmdMaxBytes cn = 1)
        \<longrightarrow> Conn_splitText cn s = None)
   \<and> (0 \<le> maxLen \<and> maxLen < w \<and> 0 \<le> l \<and> l \<le> p \<and> p < r \<and> r < p + w
        \<and> p + w \<le> int (length s) \<and> RuneStart (s ! nat p)
        \<and> (\<forall>i. p < i \<and> i < p + w \<longrightarrow> \<not> RuneStart (s ! nat i))
        \<longrightarrow> splitLoop s maxLen l r splits = None)"
proof (intro conjI impI)
  assume "ValidString s \<and> 4 \<le> maxLen"
  then show "\<exists>chunks. splitText s maxLen = Some (Ok chunks)"
    using splitText_total [of s maxLen] by blast
next
  assume "ValidString s \<and> s \<noteq> []"
  then show "splitText s 0 = None"
    using splitText_zero by blast
next
  assume a: "ValidString s \<and> s \<noteq> [] \<and> (cmdMaxBytes cn = - 1 \<or> cmdMaxBytes cn = 0 \<or> cmdMaxBytes cn = 1)"
  then have "cmdMaxBytes cn sdiv 2 = 0" by (intro half_zero) simp
  with a show "Conn_splitText cn s = None"
    using splitText_zero [of s] by (simp add: Conn_splitText_def splitText_def)
next
  assume "0 \<le> maxLen \<and> maxLen < w \<and> 0 \<le> l \<and> l \<le> p \<and> p < r \<and> r < p + w
        \<and> p + w \<le> int (length s) \<and> RuneStart (s ! nat p)
        \<and> (\<forall>i. p < i \<and> i < p + w \<longrightarrow> \<not> RuneStart (s ! nat i))"
  then show "splitLoop s maxLen l r splits = None"
    by (intro splitLoop_straddle [of maxLen w l p r s]) simp_all
qed

text \<open>With target 0 the call on the empty payload returns at once, with one empty chunk.\<close>

theorem splitText_empty_payload_counterexample:
  "splitText [] 0 = Some (Ok [[]])"
  by (simp add: splitText_def splitLoop.simps slice_def bindV_def)

lemma ValidString_aEuro: "ValidString aEuro"
  by (simp add: aEuro_def ValidString.simps DecodeRuneInString_def Let_def leadSize_def
      acceptLo_def acceptHi_def isCont_def byte_def)

text \<open>
  The three parts at concrete payloads: target 4 returns; target 0 does not; target 2
  on \<open>a\<close> followed by the euro sign does not (the first split point 2 is inside the
  three-byte character at 1).
\<close>

theorem splitText_termination_witness:
  "(\<exists>chunks. splitText euroText 4 = Some (Ok chunks))
   \<and> splitText aEuro 0 = None
   \<and> splitText aEuro 2 = None"
proof -
  have st: "\<forall>i. (1::int) < i \<and> i < 1 + 3 \<longrightarrow> \<not> RuneStart (aEuro ! nat i)"
  proof (intro allI impI)
    fix i :: int assume "1 < i \<and> i < 1 + 3"
    then have "i = 2 \<or> i = 3" by arith
    then show "\<not> RuneStart (aEuro ! nat i)"
      by (auto simp add: aEuro_def RuneStart_def byte_def)
  qed
  have r1: "RuneStart (aEuro ! nat 1)"
    by (simp add: aEuro_def RuneStart_def byte_def)
  show ?thesis
    using splitText_termination [of euroText 4 undefined 3 0 1 2 "[]"]
      splitText_termination [of aEuro 2 undefined 3 0 1 2 "[]"]
      ValidString_euroText ValidString_aEuro st r1
    by (simp add: splitText_def aEuro_def)
qed

section \<open>The connection pool (\<^verbatim>\<open>ConnPool\<close>)\<close>

text \<open>
  \<^verbatim>\<open>Options\<close>.  The dialer and the connector are functions in Go too; here the
  dialer's result depends on how many dials were made before (the network is the
  environment), and the connector gets the time of its clock reads.  Durations are in
  nanoseconds.  \<^verbatim>\<open>OnClose\<close> is nil in both clients and is left out.
\<close>

record Options =
  Dialer :: "nat \<Rightarrow> error + socket"
  Connector :: "socket \<Rightarrow> int \<Rightarrow> Conn result"
  PoolSize :: int
  MinIdleConns :: int
  MaxConnAge :: int
  PoolTimeout :: int
  IdleTimeout :: int
  IdleCheckFrequency :: int

record Stats =
  Hits :: "32 word"
  Misses :: "32 word"
  Timeouts :: "32 word"
  StaleConns :: "32 word"

text \<open>
  The pool.  A \<^verbatim>\<open>*Conn\<close> is an address in \<open>heap\<close>, and 0 is nil: the pool's slices,
  the callers and the pool's bookkeeping share the connections they point to.
  \<open>queue\<close> is the number of tokens in the buffered channel of capacity \<open>PoolSize\<close>.
  \<open>spawned\<close> lists the goroutines started (\<^verbatim>\<open>go ...\<close>) and not yet run; \<open>dialed\<close>
  counts the calls of the dialer.  One operation runs at a time: a send on the full
  channel in \<open>waitTurn\<close> ends with the timeout or the cancellation, a receive on the
  empty channel never returns (\<open>Blocked\<close>).
\<close>

datatype goroutine = AddIdleConn | TryDial | Reaper

record ConnPool =
  opt :: Options
  dialErrorsNum :: "32 word"
  lastDialError :: "error option"
  queue :: nat
  conns :: "nat list"
  idleConns :: "nat list"
  poolSize :: int
  idleConnsLen :: int
  stats :: Stats
  pclosed :: bool
  heap :: "nat \<Rightarrow> Conn"
  nextAddr :: nat
  dialed :: nat
  spawned :: "goroutine list"

text \<open>
  The caller's \<^verbatim>\<open>context.Context\<close>: never done, done before the call, or done while
  the call waits for a token.
\<close>

datatype ctx = Background | Done | DoneWhileWaiting

text \<open>The zero value \<^verbatim>\<open>Conn{}\<close>, at the addresses not yet allocated.\<close>

definition zeroConn :: Conn where
  "zeroConn = \<lparr>createdAt = 0, usedAt = 0, pooled = False, Reader = None, netConn = None,
               cmdMaxBytes = 0, closed = False\<rparr>"

text \<open>
  \<^verbatim>\<open>checkMinIdleConns\<close>: the loop reserves a place for every warm-up connection and
  starts the goroutine that will dial it.  \<^verbatim>\<open>NewConnPool\<close> makes the channel and the
  slices with \<^verbatim>\<open>opt.PoolSize\<close>, which the clients set to 40; \<^verbatim>\<open>make\<close> would panic on a
  negative size, and the pools considered here have \<open>PoolSize \<ge> 0\<close>.
\<close>

function checkMinIdleLoop :: "ConnPool \<Rightarrow> ConnPool" where
  "checkMinIdleLoop p =
     (if poolSize p < PoolSize (opt p) \<and> idleConnsLen p < MinIdleConns (opt p)
      then checkMinIdleLoop (p\<lparr>poolSize := poolSize p + 1, idleConnsLen := idleConnsLen p + 1,
                               spawned := spawned p @ [AddIdleConn]\<rparr>)
      else p)"
  by pat_completeness auto
termination
  by (relation "measure (\<lambda>p. nat (PoolSize (opt p) - poolSize p))") auto

declare checkMinIdleLoop.simps [simp del]

definition checkMinIdleConns :: "ConnPool \<Rightarrow> ConnPool" where
  "checkMinIdleConns p = (if MinIdleConns (opt p) = 0 then p else checkMinIdleLoop p)"

definition NewConnPool :: "Options \<Rightarrow> ConnPool" where
  "NewConnPool opt' =
     (let p = checkMinIdleConns
                \<lparr>opt = opt', dialErrorsNum = 0, lastDialError = None, queue = 0, conns = [],
                 idleConns = [], poolSize = 0, idleConnsLen = 0,
                 stats = \<lparr>Hits = 0, Misses = 0, Timeouts = 0, StaleConns = 0\<rparr>,
                 pclosed = False, heap = (\<lambda>a. zeroConn), nextAddr = 1, dialed = 0, spawned = []\<rparr>
      in if 0 < IdleTimeout opt' \<and> 0 < IdleCheckFrequency opt'
         then p\<lparr>spawned := spawned p @ [Reaper]\<rparr> else p)"

text \<open>\<^verbatim>\<open>waitTurn\<close> takes a token, \<^verbatim>\<open>freeTurn\<close> gives one back.\<close>

definition waitTurn :: "ConnPool \<Rightarrow> ctx \<Rightarrow> unit result \<times> ConnPool" where
  "waitTurn p c =
     (if c = Done then (Err ContextDone, p)
      else if int (queue p) < PoolSize (opt p) then (Ok (), p\<lparr>queue := queue p + 1\<rparr>)
      else if c = DoneWhileWaiting then (Err ContextDone, p)
      else (Err ErrPoolTimeout, p\<lparr>stats := (stats p)\<lparr>Timeouts := Timeouts (stats p) + 1\<rparr>\<rparr>))"

definition freeTurn :: "ConnPool \<Rightarrow> unit result \<times> ConnPool" where
  "freeTurn p = (if queue p = 0 then (Blocked, p) else (Ok (), p\<lparr>queue := queue p - 1\<rparr>))"

definition popIdle :: "ConnPool \<Rightarrow> nat \<times> ConnPool" where
  "popIdle p =
     (if length (idleConns p) = 0 then (0, p)
      else let idx = length (idleConns p) - 1; cn = idleConns p ! idx
           in (cn, checkMinIdleConns (p\<lparr>idleConns := take idx (idleConns p),
                                        idleConnsLen := idleConnsLen p - 1\<rparr>)))"

text \<open>
  \<^verbatim>\<open>isStaleConn\<close>: \<^verbatim>\<open>cn.GetUsedAt()\<close> is \<^verbatim>\<open>time.Unix(usedAt, 0)\<close>, whole seconds.
\<close>

definition isStaleConn :: "ConnPool \<Rightarrow> nat \<Rightarrow> int \<Rightarrow> bool result" where
  "isStaleConn p cn now =
     (if IdleTimeout (opt p) = 0 \<and> MaxConnAge (opt p) = 0 then Ok False
      else if cn = 0 \<and> (0 < IdleTimeout (opt p) \<or> 0 < MaxConnAge (opt p))
        then Panic NilPointerDereference
      else if 0 < IdleTimeout (opt p)
              \<and> IdleTimeout (opt p) \<le> now - usedAt (heap p cn) * 1000000000 then Ok True
      else if 0 < MaxConnAge (opt p) \<and> MaxConnAge (opt p) \<le> now - createdAt (heap p cn)
        then Ok True
      else Ok False)"

definition removeConn :: "ConnPool \<Rightarrow> nat \<Rightarrow> unit result \<times> ConnPool" where
  "removeConn p cn =
     (if cn \<in> set (conns p) then
        (let p1 = p\<lparr>conns := remove1 cn (conns p)\<rparr> in
         if cn = 0 then (Panic NilPointerDereference, p1)
         else if pooled (heap p1 cn)
           then (Ok (), checkMinIdleConns (p1\<lparr>poolSize := poolSize p1 - 1\<rparr>))
         else (Ok (), p1))
      else (Ok (), p))"

definition closeConn :: "ConnPool \<Rightarrow> nat \<Rightarrow> unit result \<times> ConnPool" where
  "closeConn p cn =
     (if cn = 0 then (Panic NilPointerDereference, p)
      else (Ok (), p\<lparr>heap := (heap p)(cn := Close (heap p cn))\<rparr>))"

definition CloseConn :: "ConnPool \<Rightarrow> nat \<Rightarrow> unit result \<times> ConnPool" where
  "CloseConn p cn = andThen (removeConn p cn) (\<lambda>_ p1. closeConn p1 cn)"

definition Remove :: "ConnPool \<Rightarrow> nat \<Rightarrow> unit result \<times> ConnPool" where
  "Remove p cn =
     andThen (removeConn p cn) (\<lambda>_ p1.
     andThen (freeTurn p1) (\<lambda>_ p2.
       closeConn p2 cn))"

text \<open>
  \<^verbatim>\<open>dialConn\<close>.  \<^verbatim>\<open>getLastDialError\<close> returns nil when no error was stored; the caller
  then gets a nil connection and a nil error (\<open>Ok 0\<close>).  \<^verbatim>\<open>uint32(p.opt.PoolSize)\<close> is
  \<open>word_of_int\<close>.
\<close>

definition dialConn :: "ConnPool \<Rightarrow> bool \<Rightarrow> int \<Rightarrow> nat result \<times> ConnPool" where
  "dialConn p pooled' now =
     (if pclosed p then (Err ErrClosed, p)
      else if word_of_int (PoolSize (opt p)) \<le> dialErrorsNum p
        then (case lastDialError p of Some e \<Rightarrow> (Err e, p) | None \<Rightarrow> (Ok 0, p))
      else case Dialer (opt p) (dialed p) of
        Inl err \<Rightarrow>
          (let p1 = p\<lparr>dialed := dialed p + 1, lastDialError := Some err,
                      dialErrorsNum := dialErrorsNum p + 1\<rparr>
           in (Err err, if dialErrorsNum p1 = word_of_int (PoolSize (opt p))
                        then p1\<lparr>spawned := spawned p1 @ [TryDial]\<rparr> else p1))
      | Inr sock \<Rightarrow>
          (let p1 = p\<lparr>dialed := dialed p + 1\<rparr> in
           case Connector (opt p) sock now of
             Ok cn \<Rightarrow> (Ok (nextAddr p1),
                       p1\<lparr>heap := (heap p1)(nextAddr p1 := cn\<lparr>pooled := pooled'\<rparr>),
                          nextAddr := nextAddr p1 + 1\<rparr>)
           | Err e \<Rightarrow> (Err e, p1)
           | Panic x \<Rightarrow> (Panic x, p1)
           | Blocked \<Rightarrow> (Blocked, p1)))"

definition newConn :: "ConnPool \<Rightarrow> bool \<Rightarrow> int \<Rightarrow> nat result \<times> ConnPool" where
  "newConn p pooled' now =
     andThen (dialConn p pooled' now) (\<lambda>cn p1.
       let p2 = p1\<lparr>conns := conns p1 @ [cn]\<rparr> in
       if pooled' then
         (if PoolSize (opt p2) \<le> poolSize p2 then
            (if cn = 0 then (Panic NilPointerDereference, p2)
             else (Ok cn, p2\<lparr>heap := (heap p2)(cn := (heap p2 cn)\<lparr>pooled := False\<rparr>)\<rparr>))
          else (Ok cn, p2\<lparr>poolSize := poolSize p2 + 1\<rparr>))
       else (Ok cn, p2))"

text \<open>The dial of a warm-up goroutine.\<close>

definition addIdleConn :: "ConnPool \<Rightarrow> int \<Rightarrow> unit result \<times> ConnPool" where
  "addIdleConn p now =
     andThen (dialConn p True now) (\<lambda>cn p1.
       (Ok (), p1\<lparr>conns := conns p1 @ [cn], idleConns := idleConns p1 @ [cn]\<rparr>))"

subsection \<open>What the warm-up check leaves alone\<close>

lemma checkMinIdleLoop_frame:
  "\<exists>a b c. checkMinIdleLoop p = p\<lparr>poolSize := a, idleConnsLen := b, spawned := c\<rparr>"
proof (induction p rule: checkMinIdleLoop.induct)
  case (1 p)
  show ?case
  proof (cases "poolSize p < PoolSize (opt p) \<and> idleConnsLen p < MinIdleConns (opt p)")
    case True
    from "1.IH" [OF True] obtain a b c where
      "checkMinIdleLoop (p\<lparr>poolSize := poolSize p + 1, idleConnsLen := idleConnsLen p + 1,
                               spawned := spawned p @ [AddIdleConn]\<rparr>)
       = p\<lparr>poolSize := poolSize p + 1, idleConnsLen := idleConnsLen p + 1,
                               spawned := spawned p @ [AddIdleConn]\<rparr>
          \<lparr>poolSize := a, idleConnsLen := b, spawned := c\<rparr>"
      by blast
    with True have "checkMinIdleLoop p = p\<lparr>poolSize := a, idleConnsLen := b, spawned := c\<rparr>"
      by (subst checkMinIdleLoop.simps) simp
    then show ?thesis by blast
  next
    case False
    then have "checkMinIdleLoop p = p"
      by (auto simp add: checkMinIdleLoop.simps [of p])
    then have "checkMinIdleLoop p = p\<lparr>poolSize := poolSize p, idleConnsLen := idleConnsLen p, spawned := spawned p\<rparr>"
      by simp
    then show ?thesis by blast
  qed
qed

lemma checkMinIdleConns_frame:
  "\<exists>a b c. checkMinIdleConns p = p\<lparr>poolSize := a, idleConnsLen := b, spawned := c\<rparr>"
proof (cases "MinIdleConns (opt p) = 0")
  case True
  then have "checkMinIdleConns p = p\<lparr>poolSize := poolSize p, idleConnsLen := idleConnsLen p, spawned := spawned p\<rparr>"
    by (simp add: checkMinIdleConns_def)
  then show ?thesis by blast
next
  case False
  then show ?thesis using checkMinIdleLoop_frame [of p] by (simp add: checkMinIdleConns_def)
qed

lemma checkMinIdleConns_fields [simp]:
  "opt (checkMinIdleConns p) = opt p"
  "dialErrorsNum (checkMinIdleConns p) = dialErrorsNum p"
  "lastDialError (checkMinIdleConns p) = lastDialError p"
  "queue (checkMinIdleConns p) = queue p"
  "conns (checkMinIdleConns p) = conns p"
  "idleConns (checkMinIdleConns p) = idleConns p"
  "stats (checkMinIdleConns p) = stats p"
  "pclosed (checkMinIdleConns p) = pclosed p"
  "heap (checkMinIdleConns p) = heap p"
  "nextAddr (checkMinIdleConns p) = nextAddr p"
  "dialed (checkMinIdleConns p) = dialed p"
  using checkMinIdleConns_frame [of p] by auto

lemma popIdle_shrinks:
  "popIdle p = (cn, p1) \<Longrightarrow> cn \<noteq> 0 \<Longrightarrow> length (idleConns p1) < length (idleConns p)"
  by (auto simp add: popIdle_def Let_def split: if_splits)

lemma removeConn_idleConns [simp]: "idleConns (snd (removeConn p cn)) = idleConns p"
  by (simp add: removeConn_def Let_def)

lemma closeConn_idleConns [simp]: "idleConns (snd (closeConn p cn)) = idleConns p"
  by (simp add: closeConn_def)

lemma CloseConn_idleConns [simp]: "idleConns (snd (CloseConn p cn)) = idleConns p"
proof -
  obtain r p1 where rc: "removeConn p cn = (r, p1)" by (cases "removeConn p cn")
  then have "idleConns p1 = idleConns p"
    using removeConn_idleConns [of p cn] by simp
  then show ?thesis
    using closeConn_idleConns [of p1 cn]
    by (cases r) (simp_all add: CloseConn_def andThen_def rc)
qed

lemma CloseConn_idleConns': "CloseConn p cn = (r, p2) \<Longrightarrow> idleConns p2 = idleConns p"
  using CloseConn_idleConns [of p cn] by simp

text \<open>
  The loop of \<^verbatim>\<open>Get\<close> over the idle connections, most recently idled first: a stale
  one is closed and the loop goes on; \<open>Ok 0\<close> says that no idle connection is left.
\<close>

function getIdle :: "ConnPool \<Rightarrow> int \<Rightarrow> nat result \<times> ConnPool" where
  "getIdle p now =
     (case popIdle p of (cn, p1) \<Rightarrow>
        if cn = 0 then (Ok 0, p1)
        else (case isStaleConn p1 cn now of
                Ok stale \<Rightarrow>
                  if stale then
                    (case CloseConn p1 cn of
                       (Panic x, p2) \<Rightarrow> (Panic x, p2)
                     | (Blocked, p2) \<Rightarrow> (Blocked, p2)
                     | (_, p2) \<Rightarrow> getIdle p2 now)
                  else (Ok cn, p1\<lparr>stats := (stats p1)\<lparr>Hits := Hits (stats p1) + 1\<rparr>\<rparr>)
              | Err e \<Rightarrow> (Err e, p1)
              | Panic x \<Rightarrow> (Panic x, p1)
              | Blocked \<Rightarrow> (Blocked, p1)))"
  by pat_completeness auto
termination
proof (relation "measure (\<lambda>(p, now). length (idleConns p))", goal_cases)
  case 1
  show ?case by simp
next
  case 2
  then show ?case
    using popIdle_shrinks CloseConn_idleConns' by (metis in_measure case_prod_conv)
next
  case 3
  then show ?case
    using popIdle_shrinks CloseConn_idleConns' by (metis in_measure case_prod_conv)
qed

declare getIdle.simps [simp del]

definition Get :: "ConnPool \<Rightarrow> ctx \<Rightarrow> int \<Rightarrow> nat result \<times> ConnPool" where
  "Get p c now =
     (if pclosed p then (Err ErrClosed, p)
      else
        andThen (waitTurn p c) (\<lambda>_ p1.
        andThen (getIdle p1 now) (\<lambda>cn p2.
          if cn \<noteq> 0 then (Ok cn, p2)
          else
            (let p3 = p2\<lparr>stats := (stats p2)\<lparr>Misses := Misses (stats p2) + 1\<rparr>\<rparr> in
             case newConn p3 True now of
               (Err e, p4) \<Rightarrow>
                 (case freeTurn p4 of (Blocked, p5) \<Rightarrow> (Blocked, p5) | (_, p5) \<Rightarrow> (Err e, p5))
             | (r, p4) \<Rightarrow> (r, p4)))))"

definition Put :: "ConnPool \<Rightarrow> nat \<Rightarrow> unit result \<times> ConnPool" where
  "Put p cn =
     (if cn = 0 then (Panic NilPointerDereference, p)
      else case Buffered (heap p cn) of
        Ok n \<Rightarrow>
          if 0 < n then Remove p cn
          else if \<not> pooled (heap p cn) then Remove p cn
          else freeTurn (p\<lparr>idleConns := idleConns p @ [cn], idleConnsLen := idleConnsLen p + 1\<rparr>)
      | Err e \<Rightarrow> (Err e, p)
      | Panic x \<Rightarrow> (Panic x, p)
      | Blocked \<Rightarrow> (Blocked, p))"

text \<open>
  The prober \<^verbatim>\<open>tryDial\<close>: it dials until a dial succeeds, and may go on for ever.
  (Its sleep of one second between two dials is not part of the model.)
\<close>

partial_function (option) tryDial :: "ConnPool \<Rightarrow> ConnPool option" where
  "tryDial p =
     (if pclosed p then Some p
      else case Dialer (opt p) (dialed p) of
        Inl err \<Rightarrow> tryDial (p\<lparr>dialed := dialed p + 1, lastDialError := Some err\<rparr>)
      | Inr conn \<Rightarrow> Some (p\<lparr>dialed := dialed p + 1, dialErrorsNum := 0\<rparr>))"

section \<open>The clients (\<^verbatim>\<open>SearchClient\<close>, \<^verbatim>\<open>IngestClient\<close>)\<close>

text \<open>A method called on the connection a pointer refers to; a nil pointer panics.\<close>

definition onConn :: "nat \<Rightarrow> (Conn \<Rightarrow> 'a result \<times> Conn) \<Rightarrow> ConnPool \<Rightarrow> 'a result \<times> ConnPool" where
  "onConn cn f p =
     (if cn = 0 then (Panic NilPointerDereference, p)
      else case f (heap p cn) of (r, c') \<Rightarrow> (r, p\<lparr>heap := (heap p)(cn := c')\<rparr>))"

text \<open>\<^verbatim>\<open>strconv.Itoa\<close>.\<close>

function natDigits :: "nat \<Rightarrow> string" where
  "natDigits n = (if n < 10 then [char_of (48 + n)] else natDigits (n div 10) @ [char_of (48 + n mod 10)])"
  by pat_completeness auto
termination
  by (relation "measure id") auto

declare natDigits.simps [simp del]

definition Itoa :: "int \<Rightarrow> string" where
  "Itoa i = (if i < 0 then CHR ''-'' # natDigits (nat (- i)) else natDigits (nat i))"

text \<open>
  The operations of the clients, as written: \<^verbatim>\<open>Get\<close>, the command, the reads, and the
  return.  \<open>resultCount\<close> is the body that \<^verbatim>\<open>Count\<close>, \<^verbatim>\<open>FlushB\<close>, \<^verbatim>\<open>FlushC\<close> and
  \<^verbatim>\<open>FlushO\<close> share word for word after building their command.  \<^verbatim>\<open>Push\<close> calls
  \<^verbatim>\<open>conn.splitText\<close> and returns only if that loop does.
\<close>

definition SearchClient_Query ::
  "ConnPool \<Rightarrow> ctx \<Rightarrow> int \<Rightarrow> string \<Rightarrow> string \<Rightarrow> string \<Rightarrow> int \<Rightarrow> int \<Rightarrow> string list result \<times> ConnPool" where
  "SearchClient_Query pool c now collection bucket term limit offset =
     andThen (Get pool c now) (\<lambda>conn p1.
     andThen (onConn conn (\<lambda>cn. conn_write cn
        (''QUERY'' @ '' '' @ collection @ '' '' @ bucket @ '' '' @ [CHR 0x22] @ term @ [CHR 0x22]
         @ ''LIMIT('' @ Itoa limit @ '') OFFSET('' @ Itoa offset @ '')'')) p1) (\<lambda>_ p2.
     andThen (onConn conn read p2) (\<lambda>_ p3.
     andThen (onConn conn read p3) (\<lambda>line p4.
       (getSearchResults line ''QUERY'', p4)))))"

fun pushChunks :: "nat \<Rightarrow> string \<Rightarrow> string list \<Rightarrow> ConnPool \<Rightarrow> unit result \<times> ConnPool" where
  "pushChunks conn cmd [] p = (Ok (), p)"
| "pushChunks conn cmd (chunk # chunks) p =
     andThen (onConn conn (\<lambda>cn. conn_write cn (cmd @ [CHR 0x22] @ chunk @ [CHR 0x22])) p) (\<lambda>_ p1.
     andThen (onConn conn read p1) (\<lambda>_ p2.
       pushChunks conn cmd chunks p2))"

definition IngestClient_Push ::
  "ConnPool \<Rightarrow> ctx \<Rightarrow> int \<Rightarrow> string \<Rightarrow> string \<Rightarrow> string \<Rightarrow> string \<Rightarrow> (unit result \<times> ConnPool) option" where
  "IngestClient_Push pool c now collection bucket object text =
     (case Get pool c now of
        (Ok conn, p1) \<Rightarrow>
          if conn = 0 then Some (Panic NilPointerDereference, p1)
          else (case Conn_splitText (heap p1 conn) (patternReplace text) of
                  None \<Rightarrow> None
                | Some (Ok chunks) \<Rightarrow>
                    Some (pushChunks conn (''PUSH'' @ '' '' @ collection @ '' '' @ bucket @ '' '' @ object)
                            chunks p1)
                | Some (Err e) \<Rightarrow> Some (Err e, p1)
                | Some (Panic x) \<Rightarrow> Some (Panic x, p1)
                | Some Blocked \<Rightarrow> Some (Blocked, p1))
      | (Err e, p1) \<Rightarrow> Some (Err e, p1)
      | (Panic x, p1) \<Rightarrow> Some (Panic x, p1)
      | (Blocked, p1) \<Rightarrow> Some (Blocked, p1))"

definition IngestClient_Pop ::
  "ConnPool \<Rightarrow> ctx \<Rightarrow> int \<Rightarrow> string \<Rightarrow> string \<Rightarrow> string \<Rightarrow> string \<Rightarrow> unit result \<times> ConnPool" where
  "IngestClient_Pop pool c now collection bucket object text =
     andThen (Get pool c now) (\<lambda>conn p1.
     andThen (onConn conn (\<lambda>cn. conn_write cn
        (''POP'' @ '' '' @ collection @ '' '' @ bucket @ '' '' @ object
         @ [CHR 0x22] @ text @ [CHR 0x22])) p1) (\<lambda>_ p2.
     andThen (onConn conn read p2) (\<lambda>_ p3.
       (Ok (), p3))))"

definition resultCount ::
  "ConnPool \<Rightarrow> ctx \<Rightarrow> int \<Rightarrow> string \<Rightarrow> int result \<times> ConnPool" where
  "resultCount pool c now cmd =
     andThen (Get pool c now) (\<lambda>conn p1.
     andThen (onConn conn (\<lambda>cn. conn_write cn cmd) p1) (\<lambda>_ p2.
     andThen (onConn conn read p2) (\<lambda>r p3.
       (bindV (sliceFrom r 7) Atoi, p3))))"

definition IngestClient_Count ::
  "ConnPool \<Rightarrow> ctx \<Rightarrow> int \<Rightarrow> string \<Rightarrow> string \<Rightarrow> string \<Rightarrow> int result \<times> ConnPool" where
  "IngestClient_Count pool c now collection bucket object =
     resultCount pool c now (''COUNT'' @ '' '' @ collection @ '' '' @ bucket @ '' '' @ object)"

definition IngestClient_FlushB ::
  "ConnPool \<Rightarrow> ctx \<Rightarrow> int \<Rightarrow> string \<Rightarrow> string \<Rightarrow> int result \<times> ConnPool" where
  "IngestClient_FlushB pool c now collection bucket =
     resultCount pool c now (''FLUSHB'' @ '' '' @ collection @ '' '' @ bucket)"

definition IngestClient_FlushC ::
  "ConnPool \<Rightarrow> ctx \<Rightarrow> int \<Rightarrow> string \<Rightarrow> int result \<times> ConnPool" where
  "IngestClient_FlushC pool c now collection =
     resultCount pool c now (''FLUSHC'' @ '' '' @ collection)"

definition IngestClient_FlushO ::
  "ConnPool \<Rightarrow> ctx \<Rightarrow> int \<Rightarrow> string \<Rightarrow> string \<Rightarrow> string \<Rightarrow> int result \<times> ConnPool" where
  "IngestClient_FlushO pool c now collection bucket object =
     resultCount pool c now (''FLUSHO'' @ '' '' @ collection @ '' '' @ bucket @ '' '' @ object)"

text \<open>
  The options of \<^verbatim>\<open>NweSearchClient\<close> and of \<^verbatim>\<open>NewIngestCient\<close> (the connector reads the
  clock where the pool operation that dials does); a server that answers every dial,
  completes the handshake and then sends the given lines; the pool of each client
  before such a server, as \<^verbatim>\<open>NewConnPool\<close> leaves it (the warm-up goroutines are started
  and have not run).  \<open>conn2\<close> is the connection that \<open>ingestPool [ln ''OK'']\<close> dials at
  time 0.
\<close>

definition searchOptions :: "(nat \<Rightarrow> error + socket) \<Rightarrow> string \<Rightarrow> Options" where
  "searchOptions dialer password =
     \<lparr>Dialer = dialer, Connector = (\<lambda>netConn now. NewConn netConn ''search'' password now now now),
      PoolSize = 40, MinIdleConns = 10, MaxConnAge = 60000000000, PoolTimeout = 2000000000,
      IdleTimeout = 30000000000, IdleCheckFrequency = 2000000000\<rparr>"

definition server :: "readline list \<Rightarrow> socket" where
  "server lines =
     \<lparr>incoming = ln ''CONNECTED <sonic-server v1.0.0>''
                   # ln ''STARTED search protocol(1) buffer(20000)'' # lines,
      outgoing = []\<rparr>"

definition searchPool :: "readline list \<Rightarrow> ConnPool" where
  "searchPool lines = NewConnPool (searchOptions (\<lambda>n. Inr (server lines)) ''pw'')"

definition ingestOptions :: "(nat \<Rightarrow> error + socket) \<Rightarrow> string \<Rightarrow> Options" where
  "ingestOptions dialer password =
     \<lparr>Dialer = dialer, Connector = (\<lambda>netConn now. NewConn netConn ''ingest'' password now now now),
      PoolSize = 40, MinIdleConns = 10, MaxConnAge = 60000000000, PoolTimeout = 2000000000,
      IdleTimeout = 30000000000, IdleCheckFrequency = 2000000000\<rparr>"

definition ingestServer :: "readline list \<Rightarrow> socket" where
  "ingestServer lines =
     \<lparr>incoming = ln ''CONNECTED <sonic-server v1.0.0>''
                   # ln ''STARTED ingest protocol(1) buffer(20000)'' # lines,
      outgoing = []\<rparr>"

definition ingestPool :: "readline list \<Rightarrow> ConnPool" where
  "ingestPool lines = NewConnPool (ingestOptions (\<lambda>n. Inr (ingestServer lines)) ''pw'')"

definition conn2 :: Conn where
  "conn2 = \<lparr>createdAt = 0, usedAt = 0, pooled = True,
         Reader = Some \<lparr>pending = [ln ''OK''], unread = 0\<rparr>,
         netConn = Some \<lparr>wrerrs = [], sent = ''START ingest pw'' @ [CHR 0x0D, CHR 0x0A]\<rparr>,
         cmdMaxBytes = 20000, closed = False\<rparr>"


text \<open>A dialer that is refused \<open>n\<close> times and then reaches the server.\<close>

definition refusedThen :: "nat \<Rightarrow> readline list \<Rightarrow> nat \<Rightarrow> error + socket" where
  "refusedThen n lines k = (if k < n then Inl (DialError ''connection refused'') else Inr (server lines))"

text \<open>A pool of capacity 2 whose dialer is refused three times.\<close>

definition refusedPool :: ConnPool where
  "refusedPool = NewConnPool ((searchOptions (refusedThen 3 []) ''pw'')\<lparr>PoolSize := 2\<rparr>)"

subsection \<open>A protocol exchange changes the connection only\<close>

lemma NewConn_server:
  "NewConn (server lines) ''search'' pw now now now =
     Ok \<lparr>createdAt = now, usedAt = now div 1000000000, pooled = False,
         Reader = Some \<lparr>pending = lines, unread = 0\<rparr>,
         netConn = Some \<lparr>wrerrs = [], sent = ''START search '' @ pw @ [CHR 0x0D, CHR 0x0A]\<rparr>,
         cmdMaxBytes = 20000, closed = False\<rparr>"
  by (simp add: NewConn_def server_def conn_write_def read_def ln_def HasPrefix_def
      FieldsFunc_started_example Atoi_example Let_def)

lemma NewConn_ingestServer:
  "NewConn (ingestServer lines) ''ingest'' pw now now now =
     Ok \<lparr>createdAt = now, usedAt = now div 1000000000, pooled = False,
         Reader = Some \<lparr>pending = lines, unread = 0\<rparr>,
         netConn = Some \<lparr>wrerrs = [], sent = ''START ingest '' @ pw @ [CHR 0x0D, CHR 0x0A]\<rparr>,
         cmdMaxBytes = 20000, closed = False\<rparr>"
proof -
  have f: "FieldsFunc ''STARTED ingest protocol(1) buffer(20000)'' startedSep =
     [''STARTED'', ''ingest'', ''protocol'', ''1'', ''buffer'', ''20000'']"
    by (simp add: FieldsFunc_def fieldsLoop.simps DecodeRuneInString_def Let_def leadSize_def
      startedSep_def IsSpace_def byte_def)
  show ?thesis
    by (simp add: NewConn_def ingestServer_def conn_write_def read_def ln_def HasPrefix_def
      f Atoi_example Let_def)
qed

lemma searchOptions_fields:
  "Dialer (searchOptions d pw) = d"
  "Connector (searchOptions d pw) = (\<lambda>netConn now. NewConn netConn ''search'' pw now now now)"
  "PoolSize (searchOptions d pw) = 40"
  "MinIdleConns (searchOptions d pw) = 10"
  "MaxConnAge (searchOptions d pw) = 60000000000"
  "PoolTimeout (searchOptions d pw) = 2000000000"
  "IdleTimeout (searchOptions d pw) = 30000000000"
  "IdleCheckFrequency (searchOptions d pw) = 2000000000"
  by (simp_all add: searchOptions_def)

lemma ingestOptions_fields:
  "Dialer (ingestOptions d pw) = d"
  "Connector (ingestOptions d pw) = (\<lambda>netConn now. NewConn netConn ''ingest'' pw now now now)"
  "PoolSize (ingestOptions d pw) = 40"
  "MinIdleConns (ingestOptions d pw) = 10"
  "MaxConnAge (ingestOptions d pw) = 60000000000"
  "PoolTimeout (ingestOptions d pw) = 2000000000"
  "IdleTimeout (ingestOptions d pw) = 30000000000"
  "IdleCheckFrequency (ingestOptions d pw) = 2000000000"
  by (simp_all add: ingestOptions_def)

text \<open>The new pool of a client: ten warm-up dials are announced, none was made.\<close>

lemma NewConnPool_searchOptions:
  "NewConnPool (searchOptions d pw) =
     \<lparr>opt = searchOptions d pw, dialErrorsNum = 0, lastDialError = None, queue = 0, conns = [],
      idleConns = [], poolSize = 10, idleConnsLen = 10,
      stats = \<lparr>Hits = 0, Misses = 0, Timeouts = 0, StaleConns = 0\<rparr>,
      pclosed = False, heap = (\<lambda>a. zeroConn), nextAddr = 1, dialed = 0,
      spawned = [AddIdleConn, AddIdleConn, AddIdleConn, AddIdleConn, AddIdleConn,
                 AddIdleConn, AddIdleConn, AddIdleConn, AddIdleConn, AddIdleConn, Reaper]\<rparr>"
  unfolding NewConnPool_def checkMinIdleConns_def Let_def
  apply (simp add: searchOptions_def)
  apply (subst checkMinIdleLoop.simps, simp)+
  done

lemma NewConnPool_ingestOptions:
  "NewConnPool (ingestOptions d pw) =
     \<lparr>opt = ingestOptions d pw, dialErrorsNum = 0, lastDialError = None, queue = 0, conns = [],
      idleConns = [], poolSize = 10, idleConnsLen = 10,
      stats = \<lparr>Hits = 0, Misses = 0, Timeouts = 0, StaleConns = 0\<rparr>,
      pclosed = False, heap = (\<lambda>a. zeroConn), nextAddr = 1, dialed = 0,
      spawned = [AddIdleConn, AddIdleConn, AddIdleConn, AddIdleConn, AddIdleConn,
                 AddIdleConn, AddIdleConn, AddIdleConn, AddIdleConn, AddIdleConn, Reaper]\<rparr>"
  unfolding NewConnPool_def checkMinIdleConns_def Let_def
  apply (simp add: ingestOptions_def)
  apply (subst checkMinIdleLoop.simps, simp)+
  done

lemmas pool_eval =
  checkMinIdleConns_def checkMinIdleLoop.simps Get_def waitTurn_def freeTurn_def
  getIdle.simps popIdle_def isStaleConn_def newConn_def dialConn_def andThen_def onConn_def
  conn_write_def read_def NewConn_server NewConn_ingestServer Let_def HasPrefix_def ln_def
  removeConn_def closeConn_def CloseConn_def Remove_def Put_def Buffered_def Close_def
  searchPool_def ingestPool_def NewConnPool_searchOptions NewConnPool_ingestOptions
  searchOptions_fields ingestOptions_fields

text \<open>The first \<^verbatim>\<open>Get\<close> on the pool of the search client dials, and \<^verbatim>\<open>Put\<close> makes the connection idle.\<close>

lemma Get_searchPool:
  "fst (Get (searchPool lines) Background 0) = Ok 1"
  "snd (Get (searchPool lines) Background 0) =
     \<lparr>opt = searchOptions (\<lambda>n. Inr (server lines)) ''pw'', dialErrorsNum = 0, lastDialError = None,
      queue = 1, conns = [1], idleConns = [], poolSize = 11, idleConnsLen = 10,
      stats = \<lparr>Hits = 0, Misses = 1, Timeouts = 0, StaleConns = 0\<rparr>,
      pclosed = False,
      heap = (\<lambda>a. zeroConn)(1 := \<lparr>createdAt = 0, usedAt = 0, pooled = True,
         Reader = Some \<lparr>pending = lines, unread = 0\<rparr>,
         netConn = Some \<lparr>wrerrs = [], sent = ''START search pw'' @ [CHR 0x0D, CHR 0x0A]\<rparr>,
         cmdMaxBytes = 20000, closed = False\<rparr>),
      nextAddr = 2, dialed = 1,
      spawned = [AddIdleConn, AddIdleConn, AddIdleConn, AddIdleConn, AddIdleConn,
                 AddIdleConn, AddIdleConn, AddIdleConn, AddIdleConn, AddIdleConn, Reaper]\<rparr>"
  by (simp_all add: pool_eval)

lemma Put_searchPool:
  "snd (Put (snd (Get (searchPool lines) Background 0)) 1) =
     \<lparr>opt = searchOptions (\<lambda>n. Inr (server lines)) ''pw'', dialErrorsNum = 0, lastDialError = None,
      queue = 0, conns = [1], idleConns = [1], poolSize = 11, idleConnsLen = 11,
      stats = \<lparr>Hits = 0, Misses = 1, Timeouts = 0, StaleConns = 0\<rparr>,
      pclosed = False,
      heap = (\<lambda>a. zeroConn)(1 := \<lparr>createdAt = 0, usedAt = 0, pooled = True,
         Reader = Some \<lparr>pending = lines, unread = 0\<rparr>,
         netConn = Some \<lparr>wrerrs = [], sent = ''START search pw'' @ [CHR 0x0D, CHR 0x0A]\<rparr>,
         cmdMaxBytes = 20000, closed = False\<rparr>),
      nextAddr = 2, dialed = 1,
      spawned = [AddIdleConn, AddIdleConn, AddIdleConn, AddIdleConn, AddIdleConn,
                 AddIdleConn, AddIdleConn, AddIdleConn, AddIdleConn, AddIdleConn, Reaper]\<rparr>"
  by (simp add: Get_searchPool Put_def Buffered_def freeTurn_def)

lemma onConn_frame: "\<exists>h. snd (onConn cn f p) = p\<lparr>heap := h\<rparr>"
proof (cases "cn = 0")
  case True
  then have "snd (onConn cn f p) = p\<lparr>heap := heap p\<rparr>" by (simp add: onConn_def)
  then show ?thesis by blast
next
  case False
  then show ?thesis by (cases "f (heap p cn)") (auto simp add: onConn_def)
qed

lemma andThen_frame:
  assumes "\<And>a s. \<exists>h. snd (k a s) = s\<lparr>heap := h\<rparr>" and "\<exists>h. snd m = p\<lparr>heap := h\<rparr>"
  shows "\<exists>h. snd (andThen m k) = p\<lparr>heap := h\<rparr>"
proof -
  obtain r s where m: "m = (r, s)" by (cases m)
  with assms(2) obtain h where s: "s = p\<lparr>heap := h\<rparr>" by auto
  show ?thesis
  proof (cases r)
    case (Ok a)
    from assms(1) [of a s] obtain h' where "snd (k a s) = s\<lparr>heap := h'\<rparr>" by blast
    with Ok m s have "snd (andThen m k) = p\<lparr>heap := h'\<rparr>" by (simp add: andThen_def)
    then show ?thesis by blast
  qed (use m s in \<open>auto simp add: andThen_def\<close>)
qed

lemma frame_refl: "\<exists>h. (p::ConnPool) = p\<lparr>heap := h\<rparr>"
  by (rule exI [of _ "heap p"]) simp

lemma frame_trans:
  "\<exists>h. (q::ConnPool) = p\<lparr>heap := h\<rparr> \<Longrightarrow> \<exists>h. r = q\<lparr>heap := h\<rparr> \<Longrightarrow> \<exists>h. r = p\<lparr>heap := h\<rparr>"
  by auto

lemma exchange_frame:
  "\<exists>h. snd (andThen (onConn conn w p1) (\<lambda>_ p2. andThen (onConn conn read p2) (\<lambda>r p3. (g r, p3))))
        = p1\<lparr>heap := h\<rparr>"
  by (intro andThen_frame onConn_frame) (simp add: frame_refl)

section \<open>The reply of \<^verbatim>\<open>Count\<close> and of the flushes\<close>

lemma resultCount_reply:
  assumes "\<not> closed cn" and "Reader cn = Some rd" and "netConn cn = Some nc"
    and "wrerrs nc = [] \<or> hd (wrerrs nc) = None"
    and "pending rd = r # rest" and "rl_err r = None" and "\<not> rl_isPrefix r"
    and "\<not> HasPrefix (rl_line r) ''ERR ''"
    and "Get pool c now = (Ok conn, p1)" and "conn \<noteq> 0" and "heap p1 conn = cn"
  shows "fst (resultCount pool c now cmd) = bindV (sliceFrom (rl_line r) 7) Atoi"
proof -
  define cn1 where "cn1 = cn\<lparr>netConn := Some \<lparr>wrerrs = tl (wrerrs nc),
                                  sent = sent nc @ cmd @ [CHR 0x0D, CHR 0x0A]\<rparr>\<rparr>"
  have w: "conn_write cn cmd = (Ok (), cn1)"
    unfolding cn1_def using assms(1,3,4) by (rule conn_write_ok)
  have rd: "read cn1 = (Ok (rl_line r), cn1\<lparr>Reader := Some \<lparr>pending = rest, unread = rl_unread r\<rparr>\<rparr>)"
    using read_line [of cn1 rd r rest] assms(1,2,5-8) by (simp add: cn1_def)
  show ?thesis
    unfolding resultCount_def
    using assms(9-11) w rd by (simp add: andThen_def onConn_def)
qed

lemma Count_reply:
  assumes "\<not> closed cn" and "Reader cn = Some rd" and "netConn cn = Some nc"
    and "wrerrs nc = [] \<or> hd (wrerrs nc) = None"
    and "pending rd = r # rest" and "rl_err r = None" and "\<not> rl_isPrefix r"
    and "\<not> HasPrefix (rl_line r) ''ERR ''"
  shows "fst (Count cn collection bucket object) = bindV (sliceFrom (rl_line r) 7) Atoi"
    and "fst (connection_Count cn collection bucket object) =
           (if HasPrefix (rl_line r) ''STARTED ''
               \<and> (\<forall>n. Atoi (last (FieldsFunc (rl_line r) startedSep)) \<noteq> Ok n)
            then Err (StartedParseError (rl_line r))
            else bindV (sliceFrom (rl_line r) 7) Atoi)"
proof -
  define cmd where "cmd = ''COUNT '' @ collection @ '' '' @ buildCountQuery bucket object"
  define cn1 where "cn1 = cn\<lparr>netConn := Some \<lparr>wrerrs = tl (wrerrs nc),
                                  sent = sent nc @ cmd @ [CHR 0x0D, CHR 0x0A]\<rparr>\<rparr>"
  have w: "conn_write cn cmd = (Ok (), cn1)"
    unfolding cn1_def using assms(1,3,4) by (rule conn_write_ok)
  have rd: "read cn1 = (Ok (rl_line r), cn1\<lparr>Reader := Some \<lparr>pending = rest, unread = rl_unread r\<rparr>\<rparr>)"
    using read_line [of cn1 rd r rest] assms(1,2,5-8) by (simp add: cn1_def)
  show "fst (Count cn collection bucket object) = bindV (sliceFrom (rl_line r) 7) Atoi"
    unfolding Count_def cmd_def [symmetric]
    using w rd by (simp add: andThen_def)
  have crd: "fst (connection_read cn1) =
           (if HasPrefix (rl_line r) ''STARTED ''
               \<and> (\<forall>n. Atoi (last (FieldsFunc (rl_line r) startedSep)) \<noteq> Ok n)
            then Err (StartedParseError (rl_line r)) else Ok (rl_line r))"
    using connection_read_line [of cn1 rd r rest] assms(1,2,5-8) by (simp add: cn1_def)
  show "fst (connection_Count cn collection bucket object) =
           (if HasPrefix (rl_line r) ''STARTED ''
               \<and> (\<forall>n. Atoi (last (FieldsFunc (rl_line r) startedSep)) \<noteq> Ok n)
            then Err (StartedParseError (rl_line r))
            else bindV (sliceFrom (rl_line r) 7) Atoi)"
    unfolding connection_Count_def cmd_def [symmetric]
    using w crd
    by (cases "connection_read cn1") (auto simp add: andThen_def)
qed


lemma Get_ingestPool:
  "fst (Get (ingestPool [ln ''OK'']) Background 0) = Ok 1"
  "heap (snd (Get (ingestPool [ln ''OK'']) Background 0)) 1 = conn2"
  by (simp_all add: conn2_def pool_eval)

lemma Get_ingestPool_any:
  "fst (Get (ingestPool lines) Background 0) = Ok 1"
  "heap (snd (Get (ingestPool lines) Background 0)) 1 =
     \<lparr>createdAt = 0, usedAt = 0, pooled = True,
      Reader = Some \<lparr>pending = lines, unread = 0\<rparr>,
      netConn = Some \<lparr>wrerrs = [], sent = ''START ingest pw'' @ [CHR 0x0D, CHR 0x0A]\<rparr>,
      cmdMaxBytes = 20000, closed = False\<rparr>"
  by (simp_all add: pool_eval)

lemma Atoi_42: "Atoi ''42'' = Ok 42"
  by code_simp

text \<open>
  Claim C10.  \<^verbatim>\<open>connection.Count\<close>, \<^verbatim>\<open>Conn.Count\<close> and the operations \<^verbatim>\<open>Count\<close>,
  \<^verbatim>\<open>FlushB\<close>, \<^verbatim>\<open>FlushC\<close>, \<^verbatim>\<open>FlushO\<close> of \<^verbatim>\<open>IngestClient\<close> all end with
  \<^verbatim>\<open>strconv.Atoi(r[7:])\<close> on the line \<open>r\<close> they read.  On an open connection (the one
  the pool hands out, for the operations of the client) whose write succeeds and whose
  next line is complete and is no \<open>ERR\<close> line: a line shorter than 7 bytes (a bare
  \<^verbatim>\<open>OK\<close>) makes each of them panic on the slice expression; on a line of 7 bytes or more
  none panics and the result is \<open>Atoi\<close> of the line without its first 7 bytes (for
  \<^verbatim>\<open>connection.Count\<close>, whose \<^verbatim>\<open>read\<close> parses a line beginning with \<^verbatim>\<open>STARTED\<close> first:
  unless that parse fails and its error is returned).
\<close>

theorem Count_slice:
  assumes "\<not> closed cn" and "Reader cn = Some rd" and "netConn cn = Some nc"
    and "wrerrs nc = [] \<or> hd (wrerrs nc) = None"
    and "pending rd = r # rest" and "rl_err r = None" and "\<not> rl_isPrefix r"
    and "\<not> HasPrefix (rl_line r) ''ERR ''"
    and "Get pool c now = (Ok conn, p1)" and "conn \<noteq> 0" and "heap p1 conn = cn"
  shows "(length (rl_line r) < 7 \<longrightarrow>
            fst (connection_Count cn collection bucket object) = Panic SliceBoundsOutOfRange
          \<and> fst (Count cn collection bucket object) = Panic SliceBoundsOutOfRange
          \<and> fst (IngestClient_Count pool c now collection bucket object) = Panic SliceBoundsOutOfRange
          \<and> fst (IngestClient_FlushB pool c now collection bucket) = Panic SliceBoundsOutOfRange
          \<and> fst (IngestClient_FlushC pool c now collection) = Panic SliceBoundsOutOfRange
          \<and> fst (IngestClient_FlushO pool c now collection bucket object) = Panic SliceBoundsOutOfRange)
       \<and> (7 \<le> length (rl_line r) \<longrightarrow>
            fst (connection_Count cn collection bucket object) =
              (if HasPrefix (rl_line r) ''STARTED ''
                  \<and> (\<forall>n. Atoi (last (FieldsFunc (rl_line r) startedSep)) \<noteq> Ok n)
               then Err (StartedParseError (rl_line r)) else Atoi (drop 7 (rl_line r)))
          \<and> fst (Count cn collection bucket object) = Atoi (drop 7 (rl_line r))
          \<and> fst (IngestClient_Count pool c now collection bucket object) = Atoi (drop 7 (rl_line r))
          \<and> fst (IngestClient_FlushB pool c now collection bucket) = Atoi (drop 7 (rl_line r))
          \<and> fst (IngestClient_FlushC pool c now collection) = Atoi (drop 7 (rl_line r))
          \<and> fst (IngestClient_FlushO pool c now collection bucket object) = Atoi (drop 7 (rl_line r)))"
proof -
  have rc: "fst (resultCount pool c now cmd) = bindV (sliceFrom (rl_line r) 7) Atoi" for cmd
    using assms by (rule resultCount_reply)
  have cnt: "fst (Count cn collection bucket object) = bindV (sliceFrom (rl_line r) 7) Atoi"
    using assms(1-8) by (rule Count_reply(1))
  have ccnt: "fst (connection_Count cn collection bucket object) =
           (if HasPrefix (rl_line r) ''STARTED ''
               \<and> (\<forall>n. Atoi (last (FieldsFunc (rl_line r) startedSep)) \<noteq> Ok n)
            then Err (StartedParseError (rl_line r))
            else bindV (sliceFrom (rl_line r) 7) Atoi)"
    using assms(1-8) by (rule Count_reply(2))
  have short: "bindV (sliceFrom (rl_line r) 7) Atoi = Panic SliceBoundsOutOfRange"
    if "length (rl_line r) < 7"
    using that by (simp add: bindV_def sliceFrom_def)
  have long: "bindV (sliceFrom (rl_line r) 7) Atoi = Atoi (drop 7 (rl_line r))"
    if "7 \<le> length (rl_line r)"
    using that by (simp add: bindV_def sliceFrom_def)
  have ns: "\<not> HasPrefix (rl_line r) ''STARTED ''" if "length (rl_line r) < 7"
    using that HasPrefix_started_length [of "rl_line r"] by auto
  show ?thesis
    unfolding IngestClient_Count_def IngestClient_FlushB_def IngestClient_FlushC_def
      IngestClient_FlushO_def rc cnt ccnt
    using short long ns by simp
qed

text \<open>A bare \<^verbatim>\<open>OK\<close> makes every one of them panic; \<^verbatim>\<open>RESULT 42\<close> gives 42.\<close>

theorem Count_slice_witness:
  "fst (connection_Count conn2 ''messages'' ''user1'' ''obj'') = Panic SliceBoundsOutOfRange
   \<and> fst (Count conn2 ''messages'' ''user1'' ''obj'') = Panic SliceBoundsOutOfRange
   \<and> fst (IngestClient_Count (ingestPool [ln ''OK'']) Background 0 ''messages'' ''user1'' ''obj'') = Panic SliceBoundsOutOfRange
   \<and> fst (IngestClient_FlushB (ingestPool [ln ''OK'']) Background 0 ''messages'' ''user1'') = Panic SliceBoundsOutOfRange
   \<and> fst (IngestClient_FlushC (ingestPool [ln ''OK'']) Background 0 ''messages'') = Panic SliceBoundsOutOfRange
   \<and> fst (IngestClient_FlushO (ingestPool [ln ''OK'']) Background 0 ''messages'' ''user1'' ''obj'') = Panic SliceBoundsOutOfRange
   \<and> fst (IngestClient_Count (ingestPool [ln ''RESULT 42'']) Background 0 ''messages'' ''user1'' ''obj'') = Ok 42
   \<and> fst (IngestClient_FlushB (ingestPool [ln ''RESULT 42'']) Background 0 ''messages'' ''user1'') = Ok 42"
proof -
  have g: "Get (ingestPool lines) Background 0 = (Ok 1, snd (Get (ingestPool lines) Background 0))"
    for lines
    using Get_ingestPool_any(1) [of lines] by (cases "Get (ingestPool lines) Background 0") simp
  have short: "fst (connection_Count conn2 ''messages'' ''user1'' ''obj'') = Panic SliceBoundsOutOfRange
   \<and> fst (Count conn2 ''messages'' ''user1'' ''obj'') = Panic SliceBoundsOutOfRange
   \<and> fst (IngestClient_Count (ingestPool [ln ''OK'']) Background 0 ''messages'' ''user1'' ''obj'') = Panic SliceBoundsOutOfRange
   \<and> fst (IngestClient_FlushB (ingestPool [ln ''OK'']) Background 0 ''messages'' ''user1'') = Panic SliceBoundsOutOfRange
   \<and> fst (IngestClient_FlushC (ingestPool [ln ''OK'']) Background 0 ''messages'') = Panic SliceBoundsOutOfRange
   \<and> fst (IngestClient_FlushO (ingestPool [ln ''OK'']) Background 0 ''messages'' ''user1'' ''obj'') = Panic SliceBoundsOutOfRange"
    using Count_slice [of conn2 "\<lparr>pending = [ln ''OK''], unread = 0\<rparr>"
        "\<lparr>wrerrs = [], sent = ''START ingest pw'' @ [CHR 0x0D, CHR 0x0A]\<rparr>" "ln ''OK''" "[]"
        "ingestPool [ln ''OK'']" Background 0 1 "snd (Get (ingestPool [ln ''OK'']) Background 0)"
        "''messages''" "''user1''" "''obj''", OF _ _ _ _ _ _ _ _ g _ Get_ingestPool(2)]
    by (simp add: conn2_def ln_def HasPrefix_def)
  have long: "fst (IngestClient_Count (ingestPool [ln ''RESULT 42'']) Background 0 ''messages'' ''user1'' ''obj'') = Ok 42
   \<and> fst (IngestClient_FlushB (ingestPool [ln ''RESULT 42'']) Background 0 ''messages'' ''user1'') = Ok 42"
    using Count_slice [of "\<lparr>createdAt = 0, usedAt = 0, pooled = True,
      Reader = Some \<lparr>pending = [ln ''RESULT 42''], unread = 0\<rparr>,
      netConn = Some \<lparr>wrerrs = [], sent = ''START ingest pw'' @ [CHR 0x0D, CHR 0x0A]\<rparr>,
      cmdMaxBytes = 20000, closed = False\<rparr>" "\<lparr>pending = [ln ''RESULT 42''], unread = 0\<rparr>"
        "\<lparr>wrerrs = [], sent = ''START ingest pw'' @ [CHR 0x0D, CHR 0x0A]\<rparr>" "ln ''RESULT 42''" "[]"
        "ingestPool [ln ''RESULT 42'']" Background 0 1
        "snd (Get (ingestPool [ln ''RESULT 42'']) Background 0)"
        "''messages''" "''user1''" "''obj''", OF _ _ _ _ _ _ _ _ g _ Get_ingestPool_any(2)]
    by (simp add: ln_def HasPrefix_def Atoi_42)
  from short long show ?thesis by (intro conjI) simp_all
qed


section \<open>The bookkeeping of the pool\<close>

subsection \<open>Removing a connection\<close>

lemma removeConn_result:
  "cn \<noteq> 0 \<Longrightarrow> fst (removeConn p cn) = Ok ()"
  by (simp add: removeConn_def Let_def)

lemma removeConn_fields:
  "cn \<noteq> 0 \<Longrightarrow> conns (snd (removeConn p cn)) = remove1 cn (conns p)"
  "queue (snd (removeConn p cn)) = queue p"
  "heap (snd (removeConn p cn)) = heap p"
  "nextAddr (snd (removeConn p cn)) = nextAddr p"
  by (auto simp add: removeConn_def Let_def remove1_idem)

lemma Remove_open:
  assumes "cn \<noteq> 0" and "0 < queue p"
  shows "fst (Remove p cn) = Ok ()"
    and "conns (snd (Remove p cn)) = remove1 cn (conns p)"
    and "idleConns (snd (Remove p cn)) = idleConns p"
    and "heap (snd (Remove p cn)) = (heap p)(cn := Close (heap p cn))"
    and "queue (snd (Remove p cn)) = queue p - 1"
    and "nextAddr (snd (Remove p cn)) = nextAddr p"
proof -
  obtain p1 where r: "removeConn p cn = (Ok (), p1)"
    using removeConn_result [OF assms(1), of p] by (cases "removeConn p cn") simp
  then have p1_eq: "p1 = snd (removeConn p cn)" by simp
  have p1: "conns p1 = remove1 cn (conns p)" "queue p1 = queue p" "heap p1 = heap p"
    "idleConns p1 = idleConns p" "nextAddr p1 = nextAddr p"
    unfolding p1_eq by (simp_all add: removeConn_fields assms(1))
  have "Remove p cn = closeConn (p1\<lparr>queue := queue p1 - 1\<rparr>) cn"
    using assms(2) p1(2) by (simp add: Remove_def andThen_def r freeTurn_def)
  then have R: "Remove p cn = (Ok (), p1\<lparr>queue := queue p1 - 1, heap := (heap p1)(cn := Close (heap p1 cn))\<rparr>)"
    using assms(1) by (simp add: closeConn_def)
  show "fst (Remove p cn) = Ok ()" by (simp add: R)
  show "conns (snd (Remove p cn)) = remove1 cn (conns p)" by (simp add: R p1)
  show "idleConns (snd (Remove p cn)) = idleConns p" by (simp add: R p1)
  show "heap (snd (Remove p cn)) = (heap p)(cn := Close (heap p cn))" by (simp add: R p1)
  show "queue (snd (Remove p cn)) = queue p - 1" by (simp add: R p1)
  show "nextAddr (snd (Remove p cn)) = nextAddr p" by (simp add: R p1)
qed

lemma getIdle_returns:
  "fst (getIdle p now) = Ok x \<Longrightarrow> x = 0 \<or> x \<in> set (idleConns p)"
proof (induction p now rule: getIdle.induct)
  case (1 p now)
  obtain cn p1 where pop: "popIdle p = (cn, p1)" by (cases "popIdle p")
  show ?case
  proof (cases "cn = 0")
    case True
    with "1.prems" pop show ?thesis by (simp add: getIdle.simps [of p])
  next
    case False
    from pop False have in_idle: "cn \<in> set (idleConns p)" and sub: "set (idleConns p1) \<subseteq> set (idleConns p)"
      by (auto simp add: popIdle_def Let_def split: if_splits dest: in_set_takeD)
    show ?thesis
    proof (cases "isStaleConn p1 cn now")
      case (Ok stale)
      show ?thesis
      proof (cases stale)
        case False
        with Ok pop \<open>cn \<noteq> 0\<close> "1.prems" in_idle show ?thesis
          by (simp add: getIdle.simps [of p])
      next
        case True
        obtain r p2 where cc: "CloseConn p1 cn = (r, p2)" by (cases "CloseConn p1 cn")
        have idle2: "idleConns p2 = idleConns p1"
          using cc by (rule CloseConn_idleConns')
        show ?thesis
        proof (cases r)
          case (Ok u)
          with \<open>isStaleConn p1 cn now = Ok stale\<close> True pop \<open>cn \<noteq> 0\<close> cc "1.prems"
          have "fst (getIdle p2 now) = Ok x" by (simp add: getIdle.simps [of p])
          from "1.IH"(1) [OF pop [symmetric] \<open>cn \<noteq> 0\<close> \<open>isStaleConn p1 cn now = Ok stale\<close> True cc [symmetric] Ok this]
          show ?thesis using idle2 sub by auto
        next
          case (Err e)
          with \<open>isStaleConn p1 cn now = Ok stale\<close> True pop \<open>cn \<noteq> 0\<close> cc "1.prems"
          have "fst (getIdle p2 now) = Ok x" by (simp add: getIdle.simps [of p])
          from "1.IH"(2) [OF pop [symmetric] \<open>cn \<noteq> 0\<close> \<open>isStaleConn p1 cn now = Ok stale\<close> True cc [symmetric] Err this]
          show ?thesis using idle2 sub by auto
        next
          case (Panic x)
          with \<open>isStaleConn p1 cn now = Ok stale\<close> True pop \<open>cn \<noteq> 0\<close> cc "1.prems" show ?thesis
            by (simp add: getIdle.simps [of p])
        next
          case Blocked
          with \<open>isStaleConn p1 cn now = Ok stale\<close> True pop \<open>cn \<noteq> 0\<close> cc "1.prems" show ?thesis
            by (simp add: getIdle.simps [of p])
        qed
      qed
    qed (use pop False "1.prems" in \<open>simp_all add: getIdle.simps [of p]\<close>)
  qed
qed

definition idleFrame :: "ConnPool \<Rightarrow> ConnPool \<Rightarrow> bool" where
  "idleFrame p p' =
     (nextAddr p' = nextAddr p \<and> queue p' = queue p \<and> set (idleConns p') \<subseteq> set (idleConns p)
      \<and> opt p' = opt p \<and> pclosed p' = pclosed p \<and> dialErrorsNum p' = dialErrorsNum p
      \<and> lastDialError p' = lastDialError p \<and> dialed p' = dialed p
      \<and> (\<forall>a. usedAt (heap p' a) = usedAt (heap p a)))"

lemma idleFrame_refl: "idleFrame p p"
  by (simp add: idleFrame_def)

lemma idleFrame_trans: "idleFrame p q \<Longrightarrow> idleFrame q r \<Longrightarrow> idleFrame p r"
  by (auto simp add: idleFrame_def)

lemma popIdle_frame: "idleFrame p (snd (popIdle p))"
  by (auto simp add: idleFrame_def popIdle_def Let_def dest: in_set_takeD)

lemma removeConn_frame: "idleFrame p (snd (removeConn p cn))"
  by (simp add: idleFrame_def removeConn_def Let_def)

lemma closeConn_frame: "idleFrame p (snd (closeConn p cn))"
  by (simp add: idleFrame_def closeConn_def Close_def)

lemma CloseConn_frame: "idleFrame p (snd (CloseConn p cn))"
proof -
  obtain r p1 where rc: "removeConn p cn = (r, p1)" by (cases "removeConn p cn")
  then have f1: "idleFrame p p1" using removeConn_frame [of p cn] by simp
  show ?thesis
  proof (cases r)
    case (Ok u)
    then have "snd (CloseConn p cn) = snd (closeConn p1 cn)"
      by (simp add: CloseConn_def andThen_def rc)
    with f1 closeConn_frame [of p1 cn] show ?thesis by (auto intro: idleFrame_trans)
  qed (use f1 rc in \<open>simp_all add: CloseConn_def andThen_def\<close>)
qed

lemma getIdle_frame: "idleFrame p (snd (getIdle p now))"
proof (induction p now rule: getIdle.induct)
  case (1 p now)
  obtain cn p1 where pop: "popIdle p = (cn, p1)" by (cases "popIdle p")
  then have f1: "idleFrame p p1" using popIdle_frame [of p] by simp
  show ?case
  proof (cases "cn = 0")
    case True
    with pop f1 show ?thesis by (simp add: getIdle.simps [of p])
  next
    case False
    show ?thesis
    proof (cases "isStaleConn p1 cn now")
      case (Ok stale)
      show ?thesis
      proof (cases stale)
        case False
        have "idleFrame p1 (p1\<lparr>stats := (stats p1)\<lparr>Hits := Hits (stats p1) + 1\<rparr>\<rparr>)"
          by (simp add: idleFrame_def)
        with f1 have "idleFrame p (p1\<lparr>stats := (stats p1)\<lparr>Hits := Hits (stats p1) + 1\<rparr>\<rparr>)"
          by (rule idleFrame_trans)
        with False Ok pop \<open>cn \<noteq> 0\<close> show ?thesis
          by (simp add: getIdle.simps [of p])
      next
        case True
        obtain r p2 where cc: "CloseConn p1 cn = (r, p2)" by (cases "CloseConn p1 cn")
        then have "idleFrame p1 p2" using CloseConn_frame [of p1 cn] by simp
        with f1 have f2: "idleFrame p p2" by (rule idleFrame_trans)
        show ?thesis
        proof (cases r)
          case (Ok u)
          from "1.IH"(1) [OF pop [symmetric] \<open>cn \<noteq> 0\<close> \<open>isStaleConn p1 cn now = Ok stale\<close> True cc [symmetric] Ok]
          have "idleFrame p2 (snd (getIdle p2 now))" .
          with f2 have "idleFrame p (snd (getIdle p2 now))" by (rule idleFrame_trans)
          with Ok \<open>isStaleConn p1 cn now = Ok stale\<close> True pop \<open>cn \<noteq> 0\<close> cc show ?thesis
            by (simp add: getIdle.simps [of p])
        next
          case (Err e)
          from "1.IH"(2) [OF pop [symmetric] \<open>cn \<noteq> 0\<close> \<open>isStaleConn p1 cn now = Ok stale\<close> True cc [symmetric] Err]
          have "idleFrame p2 (snd (getIdle p2 now))" .
          with f2 have "idleFrame p (snd (getIdle p2 now))" by (rule idleFrame_trans)
          with Err \<open>isStaleConn p1 cn now = Ok stale\<close> True pop \<open>cn \<noteq> 0\<close> cc show ?thesis
            by (simp add: getIdle.simps [of p])
        next
          case (Panic x)
          with \<open>isStaleConn p1 cn now = Ok stale\<close> True pop \<open>cn \<noteq> 0\<close> cc f2 show ?thesis
            by (simp add: getIdle.simps [of p])
        next
          case Blocked
          with \<open>isStaleConn p1 cn now = Ok stale\<close> True pop \<open>cn \<noteq> 0\<close> cc f2 show ?thesis
            by (simp add: getIdle.simps [of p])
        qed
      qed
    qed (use pop False f1 in \<open>simp_all add: getIdle.simps [of p]\<close>)
  qed
qed

lemma dialConn_returns: "fst (dialConn p pl now) = Ok x \<Longrightarrow> x = 0 \<or> x = nextAddr p"
  by (auto simp add: dialConn_def Let_def split: if_splits option.splits sum.splits result.splits)

lemma newConn_returns: "fst (newConn p pl now) = Ok x \<Longrightarrow> x = 0 \<or> x = nextAddr p"
proof -
  assume a: "fst (newConn p pl now) = Ok x"
  obtain r p1 where d: "dialConn p pl now = (r, p1)" by (cases "dialConn p pl now")
  show ?thesis
  proof (cases r)
    case (Ok cn)
    with d have "cn = 0 \<or> cn = nextAddr p" using dialConn_returns [of p pl now cn] by simp
    moreover from a d Ok have "x = cn"
      by (simp add: newConn_def andThen_def Let_def split: if_splits)
    ultimately show ?thesis by simp
  qed (use a d in \<open>simp_all add: newConn_def andThen_def\<close>)
qed

lemma Get_returns:
  assumes "fst (Get p c now) = Ok x"
  shows "x = 0 \<or> x \<in> set (idleConns p) \<or> x = nextAddr p"
proof -
  from assms have np: "\<not> pclosed p" by (auto simp add: Get_def)
  obtain r p1 where w: "waitTurn p c = (r, p1)" by (cases "waitTurn p c")
  with assms np obtain u where r: "r = Ok u" by (cases r) (simp_all add: Get_def andThen_def)
  from w r have p1: "idleConns p1 = idleConns p" "nextAddr p1 = nextAddr p"
    by (auto simp add: waitTurn_def split: if_splits)
  obtain g p2 where gi: "getIdle p1 now = (g, p2)" by (cases "getIdle p1 now")
  with assms np w r obtain cn where g: "g = Ok cn" by (cases g) (simp_all add: Get_def andThen_def)
  from gi g have cn: "cn = 0 \<or> cn \<in> set (idleConns p1)"
    using getIdle_returns [of p1 now cn] by simp
  from gi have fr: "idleFrame p1 p2" using getIdle_frame [of p1 now] by simp
  show ?thesis
  proof (cases "cn = 0")
    case False
    with assms np w r gi g have "x = cn" by (simp add: Get_def andThen_def)
    with cn p1 show ?thesis by auto
  next
    case True
    let ?p3 = "p2\<lparr>stats := (stats p2)\<lparr>Misses := Misses (stats p2) + 1\<rparr>\<rparr>"
    obtain n p4 where nc: "newConn ?p3 True now = (n, p4)" by (cases "newConn ?p3 True now")
    from assms np w r gi g True nc have "n = Ok x"
      by (cases n) (auto simp add: Get_def andThen_def Let_def freeTurn_def split: if_splits)
    with nc have "x = 0 \<or> x = nextAddr ?p3"
      using newConn_returns [of ?p3 True now x] by simp
    with fr p1 show ?thesis by (auto simp add: idleFrame_def)
  qed
qed


section \<open>Returning a connection (\<^verbatim>\<open>Put\<close>)\<close>

lemma Put_discards:
  assumes "cn \<noteq> 0" and "Reader (heap p cn) = Some rd" and "0 < queue p"
    and "0 < unread rd \<or> \<not> pooled (heap p cn)"
  shows "Put p cn = Remove p cn"
  using assms by (auto simp add: Put_def Buffered_def)

lemma Put_idles:
  assumes "cn \<noteq> 0" and "Reader (heap p cn) = Some rd" and "0 < queue p"
    and "unread rd = 0" and "pooled (heap p cn)"
  shows "Put p cn = (Ok (), p\<lparr>idleConns := idleConns p @ [cn], idleConnsLen := idleConnsLen p + 1,
                              queue := queue p - 1\<rparr>)"
  using assms by (simp add: Put_def Buffered_def freeTurn_def)

lemma read_searchPool:
  "snd (onConn 1 read (snd (Get (searchPool (\<lparr>rl_line = l, rl_isPrefix = False, rl_err = None,
       rl_unread = u\<rparr> # lines)) Background 0))) =
     \<lparr>opt = searchOptions (\<lambda>n. Inr (server (\<lparr>rl_line = l, rl_isPrefix = False, rl_err = None,
               rl_unread = u\<rparr> # lines))) ''pw'',
      dialErrorsNum = 0, lastDialError = None,
      queue = 1, conns = [1], idleConns = [], poolSize = 11, idleConnsLen = 10,
      stats = \<lparr>Hits = 0, Misses = 1, Timeouts = 0, StaleConns = 0\<rparr>,
      pclosed = False,
      heap = (\<lambda>a. zeroConn)(1 := \<lparr>createdAt = 0, usedAt = 0, pooled = True,
         Reader = Some \<lparr>pending = lines, unread = u\<rparr>,
         netConn = Some \<lparr>wrerrs = [], sent = ''START search pw'' @ [CHR 0x0D, CHR 0x0A]\<rparr>,
         cmdMaxBytes = 20000, closed = False\<rparr>),
      nextAddr = 2, dialed = 1,
      spawned = [AddIdleConn, AddIdleConn, AddIdleConn, AddIdleConn, AddIdleConn,
                 AddIdleConn, AddIdleConn, AddIdleConn, AddIdleConn, AddIdleConn, Reaper]\<rparr>"
  unfolding Get_searchPool by (simp add: onConn_def read_def)

text \<open>
  Claim C5, as the code has it.  \<open>cn\<close> is a checked-out connection: not nil, allocated,
  not in the idle set, with a token in the channel; and it is not closed, its \<open>Reader\<close>
  is not nil.  If it has unread buffered bytes or is not pooled, \<open>Put\<close> removes it from
  \<open>conns\<close>, gives the token back and closes it; \<open>idleConns\<close> is unchanged, the next
  \<open>Get\<close> does not return it, and neither does a \<open>Get\<close> on any later state of the pool
  in which it is not idle.  Otherwise \<open>Put\<close> appends it to \<open>idleConns\<close> and gives the
  token back, and changes nothing else.
\<close>

theorem Put_branches:
  assumes "cn \<noteq> 0" and "Reader (heap p cn) = Some rd" and "0 < queue p"
    and "cn \<notin> set (idleConns p)" and "cn < nextAddr p"
  shows "(0 < unread rd \<or> \<not> pooled (heap p cn) \<longrightarrow>
            fst (Put p cn) = Ok ()
          \<and> conns (snd (Put p cn)) = remove1 cn (conns p)
          \<and> (distinct (conns p) \<longrightarrow> cn \<notin> set (conns (snd (Put p cn))))
          \<and> closed (heap (snd (Put p cn)) cn)
          \<and> idleConns (snd (Put p cn)) = idleConns p
          \<and> queue (snd (Put p cn)) = queue p - 1
          \<and> (\<forall>c now. fst (Get (snd (Put p cn)) c now) \<noteq> Ok cn)
          \<and> (\<forall>q c now. cn \<notin> set (idleConns q) \<and> nextAddr p \<le> nextAddr q \<longrightarrow>
                fst (Get q c now) \<noteq> Ok cn))
       \<and> (unread rd = 0 \<and> pooled (heap p cn) \<longrightarrow>
            Put p cn = (Ok (), p\<lparr>idleConns := idleConns p @ [cn], idleConnsLen := idleConnsLen p + 1,
                                  queue := queue p - 1\<rparr>))"
proof (intro conjI impI)
  assume d: "0 < unread rd \<or> \<not> pooled (heap p cn)"
  have P: "Put p cn = Remove p cn"
    using assms(1-3) d by (rule Put_discards)
  note R = Remove_open [OF assms(1) assms(3)]
  show "fst (Put p cn) = Ok ()" by (simp add: P R)
  show "conns (snd (Put p cn)) = remove1 cn (conns p)" by (simp add: P R)
  show "cn \<notin> set (conns (snd (Put p cn)))" if "distinct (conns p)"
    using that by (simp add: P R)
  show "closed (heap (snd (Put p cn)) cn)" by (simp add: P R Close_def)
  show idle: "idleConns (snd (Put p cn)) = idleConns p" by (simp add: P R)
  show "queue (snd (Put p cn)) = queue p - 1" by (simp add: P R)
  show "\<forall>c now. fst (Get (snd (Put p cn)) c now) \<noteq> Ok cn"
  proof (intro allI notI)
    fix c now
    assume "fst (Get (snd (Put p cn)) c now) = Ok cn"
    from Get_returns [OF this]
    have "cn = 0 \<or> cn \<in> set (idleConns p) \<or> cn = nextAddr p"
      by (simp add: P R)
    with assms(1,4,5) show False by simp
  qed
  show "\<forall>q c now. cn \<notin> set (idleConns q) \<and> nextAddr p \<le> nextAddr q \<longrightarrow>
                fst (Get q c now) \<noteq> Ok cn"
  proof (intro allI impI notI)
    fix q c now
    assume later: "cn \<notin> set (idleConns q) \<and> nextAddr p \<le> nextAddr q"
      and "fst (Get q c now) = Ok cn"
    from Get_returns [OF this(2)] later assms(1,5) show False by simp
  qed
next
  assume "unread rd = 0 \<and> pooled (heap p cn)"
  then show "Put p cn = (Ok (), p\<lparr>idleConns := idleConns p @ [cn], idleConnsLen := idleConnsLen p + 1,
                                  queue := queue p - 1\<rparr>)"
    using Put_idles [OF assms(1-3)] by simp
qed

text \<open>
  The connection that the first \<open>Get\<close> has dialed is put back and becomes idle.  When
  the server has sent two lines and the caller has read one, the second is left in the
  reader's buffer: \<open>Put\<close> discards the connection, and the next \<open>Get\<close> dials another.
\<close>

theorem Put_branches_witness:
  "Put (snd (Get (searchPool []) Background 0)) 1 =
     (Ok (), (snd (Get (searchPool []) Background 0))\<lparr>idleConns := [1], idleConnsLen := 11, queue := 0\<rparr>)
   \<and> fst (Put (snd (onConn 1 read (snd (Get (searchPool
          [\<lparr>rl_line = ''PENDING abc123'', rl_isPrefix = False, rl_err = None, rl_unread = 32\<rparr>,
           ln ''EVENT QUERY abc123 id1 id2 id3'']) Background 0)))) 1) = Ok ()
   \<and> conns (snd (Put (snd (onConn 1 read (snd (Get (searchPool
          [\<lparr>rl_line = ''PENDING abc123'', rl_isPrefix = False, rl_err = None, rl_unread = 32\<rparr>,
           ln ''EVENT QUERY abc123 id1 id2 id3'']) Background 0)))) 1)) = []
   \<and> closed (heap (snd (Put (snd (onConn 1 read (snd (Get (searchPool
          [\<lparr>rl_line = ''PENDING abc123'', rl_isPrefix = False, rl_err = None, rl_unread = 32\<rparr>,
           ln ''EVENT QUERY abc123 id1 id2 id3'']) Background 0)))) 1)) 1)
   \<and> idleConns (snd (Put (snd (onConn 1 read (snd (Get (searchPool
          [\<lparr>rl_line = ''PENDING abc123'', rl_isPrefix = False, rl_err = None, rl_unread = 32\<rparr>,
           ln ''EVENT QUERY abc123 id1 id2 id3'']) Background 0)))) 1)) = []
   \<and> queue (snd (Put (snd (onConn 1 read (snd (Get (searchPool
          [\<lparr>rl_line = ''PENDING abc123'', rl_isPrefix = False, rl_err = None, rl_unread = 32\<rparr>,
           ln ''EVENT QUERY abc123 id1 id2 id3'']) Background 0)))) 1)) = 0
   \<and> fst (Get (snd (Put (snd (onConn 1 read (snd (Get (searchPool
          [\<lparr>rl_line = ''PENDING abc123'', rl_isPrefix = False, rl_err = None, rl_unread = 32\<rparr>,
           ln ''EVENT QUERY abc123 id1 id2 id3'']) Background 0)))) 1)) Background 0) \<noteq> Ok 1"
proof -
  define P where "P = snd (onConn 1 read (snd (Get (searchPool
          [\<lparr>rl_line = ''PENDING abc123'', rl_isPrefix = False, rl_err = None, rl_unread = 32\<rparr>,
           ln ''EVENT QUERY abc123 id1 id2 id3'']) Background 0)))"
  have P: "queue P = 1" "conns P = [1]" "idleConns P = []" "nextAddr P = 2"
    "Reader (heap P 1) = Some \<lparr>pending = [ln ''EVENT QUERY abc123 id1 id2 id3''], unread = 32\<rparr>"
    unfolding P_def read_searchPool by simp_all
  have idle: "Put (snd (Get (searchPool []) Background 0)) 1 =
     (Ok (), (snd (Get (searchPool []) Background 0))\<lparr>idleConns := [1], idleConnsLen := 11, queue := 0\<rparr>)"
    using Put_branches [of 1 "snd (Get (searchPool []) Background 0)" "\<lparr>pending = [], unread = 0\<rparr>"]
    by (simp add: Get_searchPool)
  have "fst (Put P 1) = Ok () \<and> conns (snd (Put P 1)) = [] \<and> closed (heap (snd (Put P 1)) 1)
      \<and> idleConns (snd (Put P 1)) = [] \<and> queue (snd (Put P 1)) = 0
      \<and> fst (Get (snd (Put P 1)) Background 0) \<noteq> Ok 1"
  proof -
    have h: "(1::nat) \<noteq> 0" "0 < queue P" "1 \<notin> set (idleConns P)" "1 < nextAddr P"
      by (simp_all add: P)
    from Put_branches [of 1 P "\<lparr>pending = [ln ''EVENT QUERY abc123 id1 id2 id3''], unread = 32\<rparr>",
        OF h(1) P(5) h(2-4)]
    show ?thesis by (simp add: P)
  qed
  with idle show ?thesis unfolding P_def by (intro conjI) simp_all
qed

text \<open>
  The server has closed the stream: the read of the caller ends with \<^verbatim>\<open>io.EOF\<close> and
  closes the connection, \<^verbatim>\<open>Reader\<close> is nil, and \<^verbatim>\<open>Put\<close> panics in \<^verbatim>\<open>cn.Buffered()\<close>.
\<close>

theorem Put_closed_counterexample:
  "fst (onConn 1 read (snd (Get (searchPool []) Background 0))) = Err EOF
   \<and> fst (Put (snd (onConn 1 read (snd (Get (searchPool []) Background 0)))) 1)
       = Panic NilPointerDereference"
  by (simp add: Get_searchPool onConn_def read_def Close_def Put_def Buffered_def)


section \<open>Dial failures (\<^verbatim>\<open>dialConn\<close>, \<^verbatim>\<open>tryDial\<close>)\<close>

lemma dialConn_failure:
  assumes "\<not> pclosed p" and "dialErrorsNum p < word_of_int (PoolSize (opt p))"
    and "Dialer (opt p) (dialed p) = Inl err"
  shows "dialConn p pl now =
           (Err err, p\<lparr>dialed := dialed p + 1, lastDialError := Some err,
                       dialErrorsNum := dialErrorsNum p + 1,
                       spawned := (if dialErrorsNum p + 1 = word_of_int (PoolSize (opt p))
                                   then spawned p @ [TryDial] else spawned p)\<rparr>)"
  using assms by (simp add: dialConn_def Let_def not_le [symmetric])

lemma dialConn_success:
  assumes "\<not> pclosed p" and "dialErrorsNum p < word_of_int (PoolSize (opt p))"
    and "Dialer (opt p) (dialed p) = Inr sock"
  shows "dialErrorsNum (snd (dialConn p pl now)) = dialErrorsNum p"
  using assms
  by (cases "Connector (opt p) sock now") (simp_all add: dialConn_def Let_def not_le [symmetric])

lemma dialConn_short_circuit:
  assumes "\<not> pclosed p" and "word_of_int (PoolSize (opt p)) \<le> dialErrorsNum p"
    and "lastDialError p = Some e"
  shows "dialConn p pl now = (Err e, p)"
  using assms by (simp add: dialConn_def)

lemma Get_short_circuit:
  assumes "\<not> pclosed p" and "word_of_int (PoolSize (opt p)) \<le> dialErrorsNum p"
    and "lastDialError p = Some e" and "idleConns p = []" and "int (queue p) < PoolSize (opt p)"
    and "c \<noteq> Done"
  shows "Get p c now = (Err e, p\<lparr>stats := (stats p)\<lparr>Misses := Misses (stats p) + 1\<rparr>\<rparr>)"
  using assms
  by (simp add: Get_def waitTurn_def getIdle.simps popIdle_def newConn_def dialConn_def
      andThen_def Let_def freeTurn_def)

lemma tryDial_succeeds:
  "\<not> pclosed p \<Longrightarrow> Dialer (opt p) (dialed p + k) = Inr sock \<Longrightarrow>
   (\<forall>j<k. \<exists>e. Dialer (opt p) (dialed p + j) = Inl e) \<Longrightarrow>
   \<exists>p'. tryDial p = Some p' \<and> dialErrorsNum p' = 0 \<and> dialed p' = dialed p + k + 1"
proof (induction k arbitrary: p)
  case 0
  then show ?case by (subst tryDial.simps) simp
next
  case (Suc k)
  from Suc.prems(3) obtain e where e: "Dialer (opt p) (dialed p) = Inl e"
    by (metis add.right_neutral zero_less_Suc)
  let ?q = "p\<lparr>dialed := dialed p + 1, lastDialError := Some e\<rparr>"
  have "\<exists>p'. tryDial ?q = Some p' \<and> dialErrorsNum p' = 0 \<and> dialed p' = dialed ?q + k + 1"
  proof (rule Suc.IH)
    show "\<not> pclosed ?q" using Suc.prems(1) by simp
    show "Dialer (opt ?q) (dialed ?q + k) = Inr sock" using Suc.prems(2) by simp
    show "\<forall>j<k. \<exists>e. Dialer (opt ?q) (dialed ?q + j) = Inl e"
    proof (intro allI impI)
      fix j assume "j < k"
      then have "Suc j < Suc k" by simp
      with Suc.prems(3) have "\<exists>e. Dialer (opt p) (dialed p + Suc j) = Inl e" by blast
      then show "\<exists>e. Dialer (opt ?q) (dialed ?q + j) = Inl e" by simp
    qed
  qed
  moreover have "tryDial p = tryDial ?q"
    using Suc.prems(1) e by (subst tryDial.simps) simp
  ultimately show ?case by simp
qed

lemma tryDial_forever:
  assumes "\<forall>k. \<exists>e. Dialer (opt p) (dialed p + k) = Inl e"
    and "\<not> pclosed p"
  shows "tryDial p = None"
proof (rule ccontr)
  assume "tryDial p \<noteq> None"
  then obtain y where y: "tryDial p = Some y" by auto
  have "\<not> (\<not> pclosed p \<and> (\<forall>k. \<exists>e. Dialer (opt p) (dialed p + k) = Inl e))"
  proof (rule tryDial.raw_induct [where P = "\<lambda>p' y'.
            \<not> (\<not> pclosed p' \<and> (\<forall>k. \<exists>e. Dialer (opt p') (dialed p' + k) = Inl e))", OF _ y], goal_cases)
    case (1 f p' y')
    show ?case
    proof
      assume st: "\<not> pclosed p' \<and> (\<forall>k. \<exists>e. Dialer (opt p') (dialed p' + k) = Inl e)"
      then obtain e where e: "Dialer (opt p') (dialed p') = Inl e"
        by (metis add.right_neutral)
      let ?q = "p'\<lparr>dialed := dialed p' + 1, lastDialError := Some e\<rparr>"
      from 1(2) st e have "f ?q = Some y'" by simp
      from 1(1) [OF this]
      have "\<not> (\<not> pclosed ?q \<and> (\<forall>k. \<exists>e. Dialer (opt ?q) (dialed ?q + k) = Inl e))" .
      moreover have "\<forall>k. \<exists>e. Dialer (opt ?q) (dialed ?q + k) = Inl e"
      proof
        fix k
        from st have "\<exists>e. Dialer (opt p') (dialed p' + Suc k) = Inl e" by blast
        then show "\<exists>e. Dialer (opt ?q) (dialed ?q + k) = Inl e" by simp
      qed
      moreover have "\<not> pclosed ?q" using st by simp
      ultimately show False by blast
    qed
  qed
  with assms show False by simp
qed

text \<open>
  Claim C6, as the code has it.  On an open pool: below the capacity a failed dial of
  \<open>dialConn\<close> records the error, adds one to the counter and starts the prober when
  the counter reaches the capacity; a successful dial leaves the counter as it is.
  At or above the capacity, with an error recorded, \<open>dialConn\<close>, the warm-up dial and
  a \<open>Get\<close> that finds no idle connection return that error and dial nothing.  The
  prober returns with the counter at zero after the first dial that succeeds, and
  never returns when no dial succeeds.
\<close>

theorem dial_failures:
  assumes "\<not> pclosed p"
  shows "(dialErrorsNum p < word_of_int (PoolSize (opt p)) \<longrightarrow>
           (\<forall>err. Dialer (opt p) (dialed p) = Inl err \<longrightarrow>
              dialConn p pl now =
                (Err err, p\<lparr>dialed := dialed p + 1, lastDialError := Some err,
                            dialErrorsNum := dialErrorsNum p + 1,
                            spawned := (if dialErrorsNum p + 1 = word_of_int (PoolSize (opt p))
                                        then spawned p @ [TryDial] else spawned p)\<rparr>))
         \<and> (\<forall>sock. Dialer (opt p) (dialed p) = Inr sock \<longrightarrow>
              dialErrorsNum (snd (dialConn p pl now)) = dialErrorsNum p))
       \<and> (word_of_int (PoolSize (opt p)) \<le> dialErrorsNum p \<longrightarrow>
           (\<forall>e. lastDialError p = Some e \<longrightarrow>
              dialConn p pl now = (Err e, p)
            \<and> addIdleConn p now = (Err e, p)
            \<and> (idleConns p = [] \<and> int (queue p) < PoolSize (opt p) \<and> c \<noteq> Done \<longrightarrow>
                 fst (Get p c now) = Err e \<and> dialed (snd (Get p c now)) = dialed p)))
       \<and> (\<forall>k sock. Dialer (opt p) (dialed p + k) = Inr sock
                    \<and> (\<forall>j<k. \<exists>e. Dialer (opt p) (dialed p + j) = Inl e) \<longrightarrow>
            (\<exists>p'. tryDial p = Some p' \<and> dialErrorsNum p' = 0 \<and> dialed p' = dialed p + k + 1))
       \<and> ((\<forall>k. \<exists>e. Dialer (opt p) (dialed p + k) = Inl e) \<longrightarrow> tryDial p = None)"
proof (intro conjI impI allI)
  fix err
  assume "dialErrorsNum p < word_of_int (PoolSize (opt p))" and "Dialer (opt p) (dialed p) = Inl err"
  with assms show "dialConn p pl now =
                (Err err, p\<lparr>dialed := dialed p + 1, lastDialError := Some err,
                            dialErrorsNum := dialErrorsNum p + 1,
                            spawned := (if dialErrorsNum p + 1 = word_of_int (PoolSize (opt p))
                                        then spawned p @ [TryDial] else spawned p)\<rparr>)"
    by (rule dialConn_failure)
next
  fix sock
  assume "dialErrorsNum p < word_of_int (PoolSize (opt p))" and "Dialer (opt p) (dialed p) = Inr sock"
  with assms show "dialErrorsNum (snd (dialConn p pl now)) = dialErrorsNum p"
    by (rule dialConn_success)
next
  fix e
  assume a: "word_of_int (PoolSize (opt p)) \<le> dialErrorsNum p" "lastDialError p = Some e"
  with assms show d: "dialConn p pl now = (Err e, p)" by (rule dialConn_short_circuit)
  from assms a have "dialConn p True now = (Err e, p)" by (rule dialConn_short_circuit)
  then show "addIdleConn p now = (Err e, p)" by (simp add: addIdleConn_def andThen_def)
  {
    assume b: "idleConns p = [] \<and> int (queue p) < PoolSize (opt p) \<and> c \<noteq> Done"
    from Get_short_circuit [OF assms a, of c now] b
    show "fst (Get p c now) = Err e" and "dialed (snd (Get p c now)) = dialed p" by simp_all
  }
next
  fix k sock
  assume "Dialer (opt p) (dialed p + k) = Inr sock
          \<and> (\<forall>j<k. \<exists>e. Dialer (opt p) (dialed p + j) = Inl e)"
  with assms show "\<exists>p'. tryDial p = Some p' \<and> dialErrorsNum p' = 0 \<and> dialed p' = dialed p + k + 1"
    using tryDial_succeeds [of p k sock] by blast
next
  assume "\<forall>k. \<exists>e. Dialer (opt p) (dialed p + k) = Inl e"
  then show "tryDial p = None" using assms by (rule tryDial_forever)
qed

lemma refusedPool_new:
  "refusedPool =
     \<lparr>opt = (searchOptions (refusedThen 3 []) ''pw'')\<lparr>PoolSize := 2\<rparr>,
      dialErrorsNum = 0, lastDialError = None,
      queue = 0, conns = [], idleConns = [], poolSize = 2, idleConnsLen = 2,
      stats = \<lparr>Hits = 0, Misses = 0, Timeouts = 0, StaleConns = 0\<rparr>,
      pclosed = False, heap = (\<lambda>a. zeroConn), nextAddr = 1, dialed = 0,
      spawned = [AddIdleConn, AddIdleConn, Reaper]\<rparr>"
  unfolding refusedPool_def NewConnPool_def checkMinIdleConns_def Let_def
  apply (simp add: searchOptions_def)
  apply (subst checkMinIdleLoop.simps, simp)+
  done

lemma refusedPool_twice:
  "snd (Get (snd (Get refusedPool Background 0)) Background 0) =
     \<lparr>opt = (searchOptions (refusedThen 3 []) ''pw'')\<lparr>PoolSize := 2\<rparr>,
      dialErrorsNum = 2, lastDialError = Some (DialError ''connection refused''),
      queue = 0, conns = [], idleConns = [], poolSize = 2, idleConnsLen = 2,
      stats = \<lparr>Hits = 0, Misses = 2, Timeouts = 0, StaleConns = 0\<rparr>,
      pclosed = False, heap = (\<lambda>a. zeroConn), nextAddr = 1, dialed = 2,
      spawned = [AddIdleConn, AddIdleConn, Reaper, TryDial]\<rparr>"
proof -
  have le: "\<not> (2 :: 32 word) \<le> 1" "\<not> (2 :: 32 word) \<le> 0" by (simp_all add: word_le_nat_alt)
  show ?thesis
    unfolding refusedPool_new
    by (simp add: Get_def waitTurn_def freeTurn_def getIdle.simps popIdle_def newConn_def
        dialConn_def andThen_def Let_def searchOptions_fields refusedThen_def le)
qed

text \<open>
  One refused dial, then a successful one: the counter is 1 after the failure and is
  still 1 after the success.
\<close>

theorem dial_success_keeps_counter_counterexample:
  "fst (Get (NewConnPool (searchOptions (refusedThen 1 []) ''pw'')) Background 0)
     = Err (DialError ''connection refused'')
   \<and> dialErrorsNum (snd (Get (NewConnPool (searchOptions (refusedThen 1 []) ''pw'')) Background 0)) = 1
   \<and> fst (Get (snd (Get (NewConnPool (searchOptions (refusedThen 1 []) ''pw'')) Background 0)) Background 0)
     = Ok 1
   \<and> dialErrorsNum (snd (Get (snd (Get (NewConnPool (searchOptions (refusedThen 1 []) ''pw''))
        Background 0)) Background 0)) = 1"
proof -
  have le: "\<not> (40 :: 32 word) \<le> 1" by (simp add: word_le_nat_alt)
  show ?thesis by (simp add: pool_eval refusedThen_def le)
qed

text \<open>
  The first dial is refused and the counter is 1.  After two refused dials the counter
  stands at the capacity and the prober is started: \<open>dialConn\<close>, the warm-up dial and
  \<open>Get\<close> return the recorded error and dial nothing; the prober's second dial
  succeeds and it returns with the counter at 0.
\<close>

theorem dial_failures_witness:
  "dialConn refusedPool True 0 =
     (Err (DialError ''connection refused''),
      refusedPool\<lparr>dialed := 1, lastDialError := Some (DialError ''connection refused''),
                  dialErrorsNum := 1\<rparr>)
   \<and> dialErrorsNum (snd (Get (snd (Get refusedPool Background 0)) Background 0)) = 2
   \<and> spawned (snd (Get (snd (Get refusedPool Background 0)) Background 0))
       = [AddIdleConn, AddIdleConn, Reaper, TryDial]
   \<and> dialConn (snd (Get (snd (Get refusedPool Background 0)) Background 0)) True 0
       = (Err (DialError ''connection refused''),
          snd (Get (snd (Get refusedPool Background 0)) Background 0))
   \<and> addIdleConn (snd (Get (snd (Get refusedPool Background 0)) Background 0)) 0
       = (Err (DialError ''connection refused''),
          snd (Get (snd (Get refusedPool Background 0)) Background 0))
   \<and> fst (Get (snd (Get (snd (Get refusedPool Background 0)) Background 0)) Background 0)
       = Err (DialError ''connection refused'')
   \<and> dialed (snd (Get (snd (Get (snd (Get refusedPool Background 0)) Background 0)) Background 0)) = 2
   \<and> (\<exists>p'. tryDial (snd (Get (snd (Get refusedPool Background 0)) Background 0)) = Some p'
            \<and> dialErrorsNum p' = 0 \<and> dialed p' = 4)"
proof -
  define Q where "Q = snd (Get (snd (Get refusedPool Background 0)) Background 0)"
  have Q: "\<not> pclosed Q" "dialErrorsNum Q = 2" "PoolSize (opt Q) = 2" "dialed Q = 2"
    "lastDialError Q = Some (DialError ''connection refused'')" "idleConns Q = []" "queue Q = 0"
    "spawned Q = [AddIdleConn, AddIdleConn, Reaper, TryDial]"
    "Dialer (opt Q) = refusedThen 3 []"
    unfolding Q_def refusedPool_twice by (simp_all add: searchOptions_fields)
  have R: "\<not> pclosed refusedPool" "dialErrorsNum refusedPool = 0" "PoolSize (opt refusedPool) = 2"
    "dialed refusedPool = 0" "Dialer (opt refusedPool) = refusedThen 3 []"
    "spawned refusedPool = [AddIdleConn, AddIdleConn, Reaper]"
    by (simp_all add: refusedPool_new searchOptions_fields)
  have w: "(0 :: 32 word) < 2" "(1 :: 32 word) \<noteq> 2" "(2 :: 32 word) \<le> 2" by simp_all
  note T1 = dial_failures [OF R(1), of True 0 Background]
  note T2 = dial_failures [OF Q(1), of True 0 Background]
  have "dialErrorsNum refusedPool < word_of_int (PoolSize (opt refusedPool))"
    and "Dialer (opt refusedPool) (dialed refusedPool) = Inl (DialError ''connection refused'')"
    by (simp_all add: R w refusedThen_def)
  with T1 have "dialConn refusedPool True 0 =
                (Err (DialError ''connection refused''), refusedPool\<lparr>dialed := dialed refusedPool + 1,
                   lastDialError := Some (DialError ''connection refused''),
                   dialErrorsNum := dialErrorsNum refusedPool + 1,
                   spawned := (if dialErrorsNum refusedPool + 1 = word_of_int (PoolSize (opt refusedPool))
                               then spawned refusedPool @ [TryDial] else spawned refusedPool)\<rparr>)"
    by blast
  then have A: "dialConn refusedPool True 0 =
     (Err (DialError ''connection refused''),
      refusedPool\<lparr>dialed := 1, lastDialError := Some (DialError ''connection refused''),
                  dialErrorsNum := 1\<rparr>)"
    by (simp add: R w)
  have "word_of_int (PoolSize (opt Q)) \<le> dialErrorsNum Q"
    and "idleConns Q = [] \<and> int (queue Q) < PoolSize (opt Q) \<and> Background \<noteq> Done"
    by (simp_all add: Q w)
  with T2 Q(5) have B: "dialConn Q True 0 = (Err (DialError ''connection refused''), Q)"
    "addIdleConn Q 0 = (Err (DialError ''connection refused''), Q)"
    "fst (Get Q Background 0) = Err (DialError ''connection refused'')"
    "dialed (snd (Get Q Background 0)) = dialed Q"
    by blast+
  have "Dialer (opt Q) (dialed Q + 1) = Inr (server [])
        \<and> (\<forall>j<1. \<exists>e. Dialer (opt Q) (dialed Q + j) = Inl e)"
    by (simp add: Q refusedThen_def)
  with T2 have "\<exists>p'. tryDial Q = Some p' \<and> dialErrorsNum p' = 0 \<and> dialed p' = dialed Q + 1 + 1"
    by blast
  moreover have "dialed Q + 1 + 1 = 4" by (simp add: Q)
  ultimately have C: "\<exists>p'. tryDial Q = Some p' \<and> dialErrorsNum p' = 0 \<and> dialed p' = 4"
    by (simp only:)
  show ?thesis
    unfolding Q_def [symmetric]
    using A B C Q(2,4,8) by (intro conjI) simp_all
qed


section \<open>The clients keep the connection\<close>

lemma andThen_Ok: "andThen (Ok a, s) k = k a s"
  by (simp add: andThen_def)

lemma dialConn_keeps:
  "queue (snd (dialConn p pl now)) = queue p"
  "opt (snd (dialConn p pl now)) = opt p"
  "pclosed (snd (dialConn p pl now)) = pclosed p"
  by (auto simp add: dialConn_def Let_def split: option.splits sum.splits result.splits)

lemma newConn_keeps:
  "queue (snd (newConn p pl now)) = queue p"
  "opt (snd (newConn p pl now)) = opt p"
  "pclosed (snd (newConn p pl now)) = pclosed p"
proof -
  obtain r p1 where d: "dialConn p pl now = (r, p1)" by (cases "dialConn p pl now")
  then have k: "queue p1 = queue p" "opt p1 = opt p" "pclosed p1 = pclosed p"
    using dialConn_keeps [of p pl now] by simp_all
  show "queue (snd (newConn p pl now)) = queue p"
    using k by (cases r) (simp_all add: newConn_def andThen_def d Let_def)
  show "opt (snd (newConn p pl now)) = opt p"
    using k by (cases r) (simp_all add: newConn_def andThen_def d Let_def)
  show "pclosed (snd (newConn p pl now)) = pclosed p"
    using k by (cases r) (simp_all add: newConn_def andThen_def d Let_def)
qed

lemma Get_Ok_fields:
  assumes "Get pool c now = (Ok conn, p1)"
  shows "queue p1 = queue pool + 1" and "opt p1 = opt pool" and "\<not> pclosed p1"
proof -
  from assms have np: "\<not> pclosed pool" by (auto simp add: Get_def)
  obtain r q1 where w: "waitTurn pool c = (r, q1)" by (cases "waitTurn pool c")
  with assms np obtain u where r: "r = Ok u" by (cases r) (simp_all add: Get_def andThen_def)
  from w r have q1: "queue q1 = queue pool + 1" "opt q1 = opt pool" "pclosed q1 = pclosed pool"
    by (auto simp add: waitTurn_def split: if_splits)
  obtain g q2 where gi: "getIdle q1 now = (g, q2)" by (cases "getIdle q1 now")
  with assms np w r obtain cn where g: "g = Ok cn" by (cases g) (simp_all add: Get_def andThen_def)
  from gi have "idleFrame q1 q2" using getIdle_frame [of q1 now] by simp
  with q1 have q2: "queue q2 = queue pool + 1" "opt q2 = opt pool" "pclosed q2 = pclosed pool"
    by (simp_all add: idleFrame_def)
  have "queue p1 = queue pool + 1 \<and> opt p1 = opt pool \<and> pclosed p1 = pclosed pool"
  proof (cases "cn = 0")
    case False
    with assms np w r gi g have "p1 = q2" by (simp add: Get_def andThen_def)
    with q2 show ?thesis by simp
  next
    case True
    let ?q3 = "q2\<lparr>stats := (stats q2)\<lparr>Misses := Misses (stats q2) + 1\<rparr>\<rparr>"
    obtain n q4 where nc: "newConn ?q3 True now = (n, q4)" by (cases "newConn ?q3 True now")
    from assms np w r gi g True nc have "p1 = q4"
      by (cases n) (auto simp add: Get_def andThen_def Let_def freeTurn_def split: if_splits)
    moreover from nc have "queue q4 = queue ?q3" "opt q4 = opt ?q3" "pclosed q4 = pclosed ?q3"
      using newConn_keeps [of ?q3 True now] by simp_all
    ultimately show ?thesis using q2 by simp
  qed
  with np show "queue p1 = queue pool + 1" and "opt p1 = opt pool" and "\<not> pclosed p1"
    by simp_all
qed

lemma pushChunks_frame: "\<exists>h. snd (pushChunks conn cmd chunks p) = p\<lparr>heap := h\<rparr>"
proof (induction chunks arbitrary: p)
  case Nil
  show ?case by (simp add: frame_refl)
next
  case (Cons chunk chunks)
  show ?case
    unfolding pushChunks.simps
    by (intro andThen_frame onConn_frame Cons.IH)
qed

lemma Query_frame:
  assumes "Get pool c now = (Ok conn, p1)"
  shows "\<exists>h. snd (SearchClient_Query pool c now collection bucket term limit offset) = p1\<lparr>heap := h\<rparr>"
  unfolding SearchClient_Query_def assms andThen_Ok
  by (intro andThen_frame onConn_frame) (simp add: frame_refl)

lemma Pop_frame:
  assumes "Get pool c now = (Ok conn, p1)"
  shows "\<exists>h. snd (IngestClient_Pop pool c now collection bucket object text) = p1\<lparr>heap := h\<rparr>"
  unfolding IngestClient_Pop_def assms andThen_Ok
  by (intro andThen_frame onConn_frame) (simp add: frame_refl)

lemma resultCount_frame:
  assumes "Get pool c now = (Ok conn, p1)"
  shows "\<exists>h. snd (resultCount pool c now cmd) = p1\<lparr>heap := h\<rparr>"
  unfolding resultCount_def assms andThen_Ok
  by (rule exchange_frame)

lemma Push_frame:
  assumes "Get pool c now = (Ok conn, p1)"
    and "IngestClient_Push pool c now collection bucket object text = Some res"
  shows "\<exists>h. snd res = p1\<lparr>heap := h\<rparr>"
proof (cases "conn = 0")
  case True
  with assms have "res = (Panic NilPointerDereference, p1)"
    by (simp add: IngestClient_Push_def)
  then show ?thesis by (simp add: frame_refl)
next
  case False
  show ?thesis
  proof (cases "Conn_splitText (heap p1 conn) (patternReplace text)")
    case None
    with assms False show ?thesis by (simp add: IngestClient_Push_def)
  next
    case (Some r)
    show ?thesis
    proof (cases r)
      case (Ok chunks)
      with Some assms False
      have "res = pushChunks conn (''PUSH'' @ '' '' @ collection @ '' '' @ bucket @ '' '' @ object) chunks p1"
        by (simp add: IngestClient_Push_def)
      then show ?thesis using pushChunks_frame by simp
    qed (use Some assms False in \<open>auto simp add: IngestClient_Push_def frame_refl\<close>)
  qed
qed

lemma Get_exhausted:
  assumes "\<not> pclosed p" and "PoolSize (opt p) \<le> int (queue p)"
  shows "fst (Get p Background now) = Err ErrPoolTimeout"
  using assms by (simp add: Get_def waitTurn_def andThen_def)

text \<open>
  Claim C1 fails on the code: no operation of the clients calls \<^verbatim>\<open>Put\<close> or \<^verbatim>\<open>Remove\<close>.
  When \<open>Get\<close> has handed out a connection, the pool after the operation, whatever its
  outcome, is the pool that \<open>Get\<close> left, up to the contents of the connections:
  the token is still in the channel, \<open>conns\<close> and \<open>idleConns\<close> are unchanged.  When that
  token was the last one, the next \<open>Get\<close> ends with the pool timeout.
\<close>

theorem facade_keeps_token:
  assumes "Get pool c now = (Ok conn, p1)"
  shows "queue p1 = queue pool + 1
       \<and> (\<exists>h. snd (SearchClient_Query pool c now collection bucket term limit offset) = p1\<lparr>heap := h\<rparr>)
       \<and> (\<forall>res. IngestClient_Push pool c now collection bucket object text = Some res \<longrightarrow>
                (\<exists>h. snd res = p1\<lparr>heap := h\<rparr>))
       \<and> (\<exists>h. snd (IngestClient_Pop pool c now collection bucket object text) = p1\<lparr>heap := h\<rparr>)
       \<and> (\<exists>h. snd (IngestClient_Count pool c now collection bucket object) = p1\<lparr>heap := h\<rparr>)
       \<and> (\<exists>h. snd (IngestClient_FlushB pool c now collection bucket) = p1\<lparr>heap := h\<rparr>)
       \<and> (\<exists>h. snd (IngestClient_FlushC pool c now collection) = p1\<lparr>heap := h\<rparr>)
       \<and> (\<exists>h. snd (IngestClient_FlushO pool c now collection bucket object) = p1\<lparr>heap := h\<rparr>)
       \<and> (\<forall>h later. PoolSize (opt pool) \<le> int (queue pool) + 1 \<longrightarrow>
             fst (Get (p1\<lparr>heap := h\<rparr>) Background later) = Err ErrPoolTimeout)"
proof -
  note G = Get_Ok_fields [OF assms]
  have ex: "fst (Get (p1\<lparr>heap := h\<rparr>) Background later) = Err ErrPoolTimeout"
    if "PoolSize (opt pool) \<le> int (queue pool) + 1" for h later
    using that G by (intro Get_exhausted) simp_all
  show ?thesis
    unfolding IngestClient_Count_def IngestClient_FlushB_def IngestClient_FlushC_def
      IngestClient_FlushO_def
    using G(1) Query_frame [OF assms] Push_frame [OF assms] Pop_frame [OF assms]
      resultCount_frame [OF assms] ex
    by blast
qed

lemma Query_searchPool:
  "fst (SearchClient_Query (searchPool [ln ''PENDING abc123'', ln ''EVENT QUERY abc123 id1 id2 id3''])
          Background 0 ''messages'' ''user1'' ''cat'' 10 0) = Ok [''id1'', ''id2'', ''id3'']"
  by (simp add: SearchClient_Query_def pool_eval getSearchResults_def sliceFrom_def Split.simps)

lemma Query_searchPool_error:
  "fst (SearchClient_Query (searchPool [ln ''ERR unknown collection''])
          Background 0 ''messages'' ''user1'' ''cat'' 10 0) = Err (ServerError ''unknown collection'')"
  "\<not> closed (heap (snd (SearchClient_Query (searchPool [ln ''ERR unknown collection''])
          Background 0 ''messages'' ''user1'' ''cat'' 10 0)) 1)"
  by (simp_all add: SearchClient_Query_def pool_eval)

text \<open>
  A query that succeeds and a query that the server answers with \<^verbatim>\<open>ERR\<close>: after both
  the token is held and the connection is in \<open>conns\<close>, open, and not idle.
\<close>

theorem facade_keeps_token_witness:
  "fst (SearchClient_Query (searchPool [ln ''PENDING abc123'', ln ''EVENT QUERY abc123 id1 id2 id3''])
          Background 0 ''messages'' ''user1'' ''cat'' 10 0) = Ok [''id1'', ''id2'', ''id3'']
   \<and> queue (snd (SearchClient_Query (searchPool [ln ''PENDING abc123'', ln ''EVENT QUERY abc123 id1 id2 id3''])
          Background 0 ''messages'' ''user1'' ''cat'' 10 0)) = 1
   \<and> idleConns (snd (SearchClient_Query (searchPool [ln ''PENDING abc123'', ln ''EVENT QUERY abc123 id1 id2 id3''])
          Background 0 ''messages'' ''user1'' ''cat'' 10 0)) = []
   \<and> conns (snd (SearchClient_Query (searchPool [ln ''PENDING abc123'', ln ''EVENT QUERY abc123 id1 id2 id3''])
          Background 0 ''messages'' ''user1'' ''cat'' 10 0)) = [1]
   \<and> fst (SearchClient_Query (searchPool [ln ''ERR unknown collection''])
          Background 0 ''messages'' ''user1'' ''cat'' 10 0) = Err (ServerError ''unknown collection'')
   \<and> queue (snd (SearchClient_Query (searchPool [ln ''ERR unknown collection''])
          Background 0 ''messages'' ''user1'' ''cat'' 10 0)) = 1
   \<and> conns (snd (SearchClient_Query (searchPool [ln ''ERR unknown collection''])
          Background 0 ''messages'' ''user1'' ''cat'' 10 0)) = [1]
   \<and> \<not> closed (heap (snd (SearchClient_Query (searchPool [ln ''ERR unknown collection''])
          Background 0 ''messages'' ''user1'' ''cat'' 10 0)) 1)"
proof -
  have g: "Get (searchPool lines) Background 0 = (Ok 1, snd (Get (searchPool lines) Background 0))"
    for lines
    using Get_searchPool(1) [of lines] by (cases "Get (searchPool lines) Background 0") simp
  have after: "queue (snd (Get (searchPool lines) Background 0)) = 1"
    "idleConns (snd (Get (searchPool lines) Background 0)) = []"
    "conns (snd (Get (searchPool lines) Background 0)) = [1]" for lines
    by (simp_all add: Get_searchPool(2))
  from facade_keeps_token [OF g, of "[ln ''PENDING abc123'', ln ''EVENT QUERY abc123 id1 id2 id3'']"
      "''messages''" "''user1''" "''cat''" 10 0]
  obtain h1 where "snd (SearchClient_Query (searchPool [ln ''PENDING abc123'', ln ''EVENT QUERY abc123 id1 id2 id3''])
          Background 0 ''messages'' ''user1'' ''cat'' 10 0)
        = (snd (Get (searchPool [ln ''PENDING abc123'', ln ''EVENT QUERY abc123 id1 id2 id3'']) Background 0))\<lparr>heap := h1\<rparr>"
    by blast
  then have A: "queue (snd (SearchClient_Query (searchPool [ln ''PENDING abc123'', ln ''EVENT QUERY abc123 id1 id2 id3''])
          Background 0 ''messages'' ''user1'' ''cat'' 10 0)) = 1"
    "idleConns (snd (SearchClient_Query (searchPool [ln ''PENDING abc123'', ln ''EVENT QUERY abc123 id1 id2 id3''])
          Background 0 ''messages'' ''user1'' ''cat'' 10 0)) = []"
    "conns (snd (SearchClient_Query (searchPool [ln ''PENDING abc123'', ln ''EVENT QUERY abc123 id1 id2 id3''])
          Background 0 ''messages'' ''user1'' ''cat'' 10 0)) = [1]"
    using after by simp_all
  from facade_keeps_token [OF g, of "[ln ''ERR unknown collection'']"
      "''messages''" "''user1''" "''cat''" 10 0]
  obtain h2 where "snd (SearchClient_Query (searchPool [ln ''ERR unknown collection''])
          Background 0 ''messages'' ''user1'' ''cat'' 10 0)
        = (snd (Get (searchPool [ln ''ERR unknown collection'']) Background 0))\<lparr>heap := h2\<rparr>"
    by blast
  then have B: "queue (snd (SearchClient_Query (searchPool [ln ''ERR unknown collection''])
          Background 0 ''messages'' ''user1'' ''cat'' 10 0)) = 1"
    "conns (snd (SearchClient_Query (searchPool [ln ''ERR unknown collection''])
          Background 0 ''messages'' ''user1'' ''cat'' 10 0)) = [1]"
    using after by simp_all
  show ?thesis
    using A B Query_searchPool Query_searchPool_error by (intro conjI)
qed


section \<open>The time of last use (\<^verbatim>\<open>usedAt\<close>)\<close>

lemma dialConn_usedAt:
  "a \<noteq> nextAddr p \<Longrightarrow> usedAt (heap (snd (dialConn p pl now)) a) = usedAt (heap p a)"
  by (auto simp add: dialConn_def Let_def split: option.splits sum.splits result.splits)

lemma newConn_usedAt:
  assumes "a \<noteq> nextAddr p"
  shows "usedAt (heap (snd (newConn p pl now)) a) = usedAt (heap p a)"
proof -
  obtain r p1 where d: "dialConn p pl now = (r, p1)" by (cases "dialConn p pl now")
  then have k: "usedAt (heap p1 a) = usedAt (heap p a)"
    using dialConn_usedAt [OF assms, of pl now] by simp
  show ?thesis
    using k by (cases r) (auto simp add: newConn_def andThen_def d Let_def)
qed

text \<open>
  Claim C2 fails on the code: \<open>Get\<close> never calls \<^verbatim>\<open>setUsedAt\<close>.  Whatever \<open>Get\<close> returns,
  \<open>usedAt\<close> of every connection that existed before the call (every address but the
  one a new connection gets) is what it was.
\<close>

theorem Get_keeps_usedAt:
  assumes "a \<noteq> nextAddr pool"
  shows "usedAt (heap (snd (Get pool c now)) a) = usedAt (heap pool a)"
proof (cases "pclosed pool")
  case True
  then show ?thesis by (simp add: Get_def)
next
  case np: False
  obtain r q1 where w: "waitTurn pool c = (r, q1)" by (cases "waitTurn pool c")
  then have q1: "heap q1 = heap pool" "nextAddr q1 = nextAddr pool"
    by (auto simp add: waitTurn_def split: if_splits)
  show ?thesis
  proof (cases r)
    case (Ok u)
    obtain g q2 where gi: "getIdle q1 now = (g, q2)" by (cases "getIdle q1 now")
    then have "idleFrame q1 q2" using getIdle_frame [of q1 now] by simp
    with q1 have q2: "usedAt (heap q2 a) = usedAt (heap pool a)" "nextAddr q2 = nextAddr pool"
      by (simp_all add: idleFrame_def)
    show ?thesis
    proof (cases g)
      case g: (Ok cn)
      show ?thesis
      proof (cases "cn = 0")
        case False
        with np w Ok gi g q2 show ?thesis by (simp add: Get_def andThen_def)
      next
        case True
        let ?q3 = "q2\<lparr>stats := (stats q2)\<lparr>Misses := Misses (stats q2) + 1\<rparr>\<rparr>"
        obtain n q4 where nc: "newConn ?q3 True now = (n, q4)" by (cases "newConn ?q3 True now")
        have "usedAt (heap q4 a) = usedAt (heap ?q3 a)"
          using newConn_usedAt [of a ?q3 True now] assms q2 nc by simp
        with q2 have q4: "usedAt (heap q4 a) = usedAt (heap pool a)" by simp
        show ?thesis
        proof (cases n)
          case (Err e)
          obtain fr q5 where ft: "freeTurn q4 = (fr, q5)" by (cases "freeTurn q4")
          then have "heap q5 = heap q4" by (auto simp add: freeTurn_def split: if_splits)
          with np w Ok gi g True nc Err ft q4 show ?thesis
            by (cases fr) (simp_all add: Get_def andThen_def Let_def)
        qed (use np w Ok gi g True nc q4 in \<open>simp_all add: Get_def andThen_def Let_def\<close>)
      qed
    qed (use np w Ok gi q2 in \<open>simp_all add: Get_def andThen_def\<close>)
  qed (use np w q1 in \<open>simp_all add: Get_def andThen_def\<close>)
qed

lemma Get_again:
  "fst (Get (snd (Put (snd (Get (searchPool lines) Background 0)) 1)) Background 29000000000) = Ok 1"
  "snd (Put (snd (Get (snd (Put (snd (Get (searchPool lines) Background 0)) 1)) Background 29000000000)) 1)
     = (snd (Put (snd (Get (searchPool lines) Background 0)) 1))
         \<lparr>stats := \<lparr>Hits = 1, Misses = 1, Timeouts = 0, StaleConns = 0\<rparr>\<rparr>"
  by (simp_all add: Put_searchPool pool_eval)

lemma Get_stale:
  "fst (Get (snd (Put (snd (Get (snd (Put (snd (Get (searchPool lines) Background 0)) 1))
      Background 29000000000)) 1)) Background 31000000000) = Ok 2"
  "closed (heap (snd (Get (snd (Put (snd (Get (snd (Put (snd (Get (searchPool lines) Background 0)) 1))
      Background 29000000000)) 1)) Background 31000000000)) 1)"
  by (simp_all add: Get_again(2) Put_searchPool pool_eval)

text \<open>
  A connection is dialed at time 0 and put back; \<open>Get\<close> hands it out again after 29
  seconds and \<open>usedAt\<close> is still 0; it is put back at once, and two seconds later
  \<open>Get\<close> finds it stale, closes it and dials a second connection.
\<close>

theorem Get_keeps_usedAt_witness:
  "fst (Get (snd (Put (snd (Get (searchPool []) Background 0)) 1)) Background 29000000000) = Ok 1
   \<and> usedAt (heap (snd (Get (snd (Put (snd (Get (searchPool []) Background 0)) 1))
        Background 29000000000)) 1) = 0
   \<and> fst (Get (snd (Put (snd (Get (snd (Put (snd (Get (searchPool []) Background 0)) 1))
        Background 29000000000)) 1)) Background 31000000000) = Ok 2
   \<and> closed (heap (snd (Get (snd (Put (snd (Get (snd (Put (snd (Get (searchPool []) Background 0)) 1))
        Background 29000000000)) 1)) Background 31000000000)) 1)"
proof -
  have nx: "1 \<noteq> nextAddr (snd (Put (snd (Get (searchPool []) Background 0)) 1))"
    unfolding Put_searchPool by simp
  have u0: "usedAt (heap (snd (Put (snd (Get (searchPool []) Background 0)) 1)) 1) = 0"
    unfolding Put_searchPool by simp
  have "usedAt (heap (snd (Get (snd (Put (snd (Get (searchPool []) Background 0)) 1))
          Background 29000000000)) 1)
        = usedAt (heap (snd (Put (snd (Get (searchPool []) Background 0)) 1)) 1)"
    using nx by (rule Get_keeps_usedAt)
  then have "usedAt (heap (snd (Get (snd (Put (snd (Get (searchPool []) Background 0)) 1))
          Background 29000000000)) 1) = 0"
    unfolding u0 .
  then show ?thesis
    using Get_again(1) [of "[]"] Get_stale [of "[]"] by (intro conjI)
qed

end
